theory Spec2Isabelle
  imports Complex_Main "HOL-Library.AList" "HOL-Library.Multiset" "HOL-Library.Sublist"
begin

section \<open>Rule-engine findings and collected page evidence\<close>

text \<open>
  The shapes of \<^verbatim>\<open>engine.interface.ts\<close> and \<^verbatim>\<open>data-collector.ts\<close>. A field that is
  \<^verbatim>\<open>string | null\<close> is a \<open>string option\<close>. \<^verbatim>\<open>AnalyzeResult\<close> is the union of a result
  and an error object, hence a datatype. Of \<^verbatim>\<open>ImageData\<close> only the fields the mapper reads
  (selector, flags) and the source of the image are kept. Record fields are global names
  in HOL, so a field name that several interfaces of the source share (\<^verbatim>\<open>rule\<close>,
  \<^verbatim>\<open>flags\<close>, \<^verbatim>\<open>selector\<close>, \<^verbatim>\<open>url\<close>, ...) carries a prefix in all but one of them.
\<close>

record AxeElement =
  html :: string
  target :: "string list"
  failureSummary :: "string option"

record AxeViolation =
  v_rule :: string
  v_impact :: string
  v_description :: string
  v_helpUrl :: string
  v_elements :: "AxeElement list"

record AxePass =
  p_rule :: string
  p_description :: string
  p_elements :: "AxeElement list"

record AxeIncomplete =
  i_rule :: string
  i_impact :: string
  i_description :: string
  i_elements :: "AxeElement list"

record EngineResult =
  violations :: "AxeViolation list"
  passes :: "AxePass list"
  incomplete :: "AxeIncomplete list"

datatype AnalyzeResult = Result EngineResult | EngineError string

record ImageData =
  img_selector :: string
  img_src :: string
  img_flags :: "string list"

record LinkData =
  l_selector :: string
  l_tagName :: string
  accessibleLabel :: "string option"
  href :: "string option"
  opensNewWindow :: bool
  hasNewWindowWarning :: bool
  l_flags :: "string list"

text \<open>A heading flag is a string or an object \<^verbatim>\<open>{flag, skipFrom, skipTo}\<close>.\<close>

datatype HeadingFlag = FlagString string | FlagObject string int int

record HeadingData =
  h_level :: int
  h_text :: string
  h_selector :: string
  h_flags :: "HeadingFlag list"

record HeadingTree =
  documentTitle :: string
  ht_headings :: "HeadingData list"
  ht_flags :: "string list"

record CollectedData =
  images :: "ImageData list"
  links :: "LinkData list"
  headings :: HeadingTree

section \<open>The criterion catalog\<close>

text \<open>
  \<^verbatim>\<open>RgaaCriterion\<close> of \<^verbatim>\<open>mapping/index.ts\<close>; \<open>evaluationStrategy\<close> is a plain string in
  the source and stays one. The catalog itself is read by \<^verbatim>\<open>loadMapping\<close> from the file
  \<^verbatim>\<open>rgaa-4.1.json\<close>, so every function that calls \<^verbatim>\<open>loadMapping\<close> takes the list of
  criteria as its first argument.
\<close>

record RgaaCriterion =
  rgaa_id :: string
  rgaa_title :: string
  rgaa_theme :: string
  wcag :: "string list"
  axeRules :: "string list"
  evaluationStrategy :: string
  dataCollectorFlags :: "string list"
  limits :: string

section \<open>Mapped and aggregated criteria\<close>

datatype CriterionStatus = Violation | Pass | Manual | Incomplete

record Element =
  selector :: string
  flags :: "string list"

record MappedCriterion =
  rgaaId :: string
  title :: string
  theme :: string
  status :: CriterionStatus
  m_violations :: "AxeViolation list"
  m_incompletes :: "AxeIncomplete list"
  elements :: "Element list"
  m_notes :: string
  manualChecks :: "string list"

record MappedPage =
  url :: string
  criteria :: "MappedCriterion list"

record AggregatedCriterion =
  a_rgaaId :: string
  a_title :: string
  a_theme :: string
  a_status :: CriterionStatus
  pagesViolating :: "string list"
  pagesPass :: "string list"
  pagesManual :: "string list"
  pagesIncomplete :: "string list"

record TopIssue =
  t_rgaaId :: string
  t_title :: string
  pagesAffected :: nat

record AuditReportSummary =
  totalCriteria :: nat
  automated :: nat
  s_violations :: nat
  s_passes :: nat
  s_manual :: nat
  s_incomplete :: nat
  topIssues :: "TopIssue list"
  s_criteria :: "AggregatedCriterion list"

section \<open>mapPageResults\<close>

text \<open>
  The only way the evaluator can throw is the read of \<^verbatim>\<open>result.violations\<close> on an error
  object whose \<^verbatim>\<open>error\<close> string is empty (falsy, so the guard lets it through).
\<close>

datatype error = TypeError

definition flagName :: "HeadingFlag \<Rightarrow> string" where
  "flagName flag = (case flag of FlagString s \<Rightarrow> s | FlagObject s _ _ \<Rightarrow> s)"

definition imageElements :: "string list \<Rightarrow> ImageData list \<Rightarrow> Element list" where
  "imageElements relevantFlags imgs =
     concat (map (\<lambda>img.
       let matchingFlags = filter (\<lambda>f. f \<in> set relevantFlags) (img_flags img)
       in if length matchingFlags > 0
          then [\<lparr>selector = img_selector img, flags = matchingFlags\<rparr>] else []) imgs)"

definition linkElements :: "string list \<Rightarrow> LinkData list \<Rightarrow> Element list" where
  "linkElements relevantFlags lnks =
     concat (map (\<lambda>link.
       let matchingFlags = filter (\<lambda>f. f \<in> set relevantFlags) (l_flags link)
       in if length matchingFlags > 0
          then [\<lparr>selector = l_selector link, flags = matchingFlags\<rparr>] else []) lnks)"

definition headingElements :: "string list \<Rightarrow> HeadingData list \<Rightarrow> Element list" where
  "headingElements relevantFlags hs =
     concat (map (\<lambda>heading.
       concat (map (\<lambda>flag.
         if flagName flag \<in> set relevantFlags
         then [\<lparr>selector = h_selector heading, flags = [flagName flag]\<rparr>] else [])
         (h_flags heading))) hs)"

text \<open>One iteration of the loop over the page-level heading flags.\<close>

definition pageFlagStep :: "string list \<Rightarrow> string \<Rightarrow> Element list \<Rightarrow> Element list" where
  "pageFlagStep relevantFlags flag els =
     (if flag \<in> set relevantFlags
      then (if list_ex (\<lambda>e. flag \<in> set (flags e)) els then els
            else els @ [\<lparr>selector = ''document'', flags = [flag]\<rparr>])
      else els)"

definition extractElements :: "RgaaCriterion \<Rightarrow> CollectedData option \<Rightarrow> Element list" where
  "extractElements criterion collectedData =
     (case collectedData of
        None \<Rightarrow> []
      | Some cd \<Rightarrow>
          let relevantFlags = dataCollectorFlags criterion
          in fold (pageFlagStep relevantFlags) (ht_flags (headings cd))
               (imageElements relevantFlags (images cd)
                @ linkElements relevantFlags (links cd)
                @ headingElements relevantFlags (ht_headings (headings cd))))"

text \<open>The object spread \<^verbatim>\<open>{ ...base, status, violations, incompletes, elements }\<close>.\<close>

definition mkMapped ::
  "RgaaCriterion \<Rightarrow> CriterionStatus \<Rightarrow> AxeViolation list \<Rightarrow> AxeIncomplete list
     \<Rightarrow> Element list \<Rightarrow> MappedCriterion" where
  "mkMapped criterion st vs ics els =
     \<lparr>rgaaId = rgaa_id criterion, title = rgaa_title criterion, theme = rgaa_theme criterion,
      status = st, m_violations = vs, m_incompletes = ics, elements = els,
      m_notes = limits criterion, manualChecks = dataCollectorFlags criterion\<rparr>"

definition mapAnyViolation ::
  "RgaaCriterion \<Rightarrow> EngineResult \<Rightarrow> Element list \<Rightarrow> MappedCriterion" where
  "mapAnyViolation criterion result els =
     (let vs = filter (\<lambda>v. v_rule v \<in> set (axeRules criterion)) (violations result);
          ics = filter (\<lambda>i. i_rule i \<in> set (axeRules criterion)) (incomplete result);
          st = (if length vs > 0 then Violation
                else if length ics > 0 then Incomplete
                else Pass)
      in mkMapped criterion st vs ics els)"

definition mapAllPass ::
  "RgaaCriterion \<Rightarrow> EngineResult \<Rightarrow> Element list \<Rightarrow> MappedCriterion" where
  "mapAllPass criterion result els =
     (let vs = filter (\<lambda>v. v_rule v \<in> set (axeRules criterion)) (violations result);
          ics = filter (\<lambda>i. i_rule i \<in> set (axeRules criterion)) (incomplete result)
      in if length vs > 0 then mkMapped criterion Violation vs ics els
         else
           let passedRules = map p_rule (passes result);
               allPass = list_all (\<lambda>rule. rule \<in> set passedRules) (axeRules criterion)
           in if allPass then mkMapped criterion Pass [] ics els
              else mkMapped criterion Incomplete [] ics els)"

definition mapCriterion ::
  "RgaaCriterion \<Rightarrow> AnalyzeResult option \<Rightarrow> CollectedData option \<Rightarrow> error + MappedCriterion"
  where
  "mapCriterion criterion axeResults collectedData =
     (let els = extractElements criterion collectedData
      in if evaluationStrategy criterion = ''MANUAL_ONLY''
         then Inr (mkMapped criterion Manual [] [] els)
         else
           case axeResults of
             None \<Rightarrow> Inr (mkMapped criterion Manual [] [] els)
           | Some (EngineError e) \<Rightarrow>
               if e \<noteq> [] then Inr (mkMapped criterion Manual [] [] els)
               else if evaluationStrategy criterion = ''ANY_VIOLATION''
                       \<or> evaluationStrategy criterion = ''ALL_PASS''
                    then Inl TypeError
                    else Inr (mkMapped criterion Manual [] [] els)
           | Some (Result engineResult) \<Rightarrow>
               if evaluationStrategy criterion = ''ANY_VIOLATION''
               then Inr (mapAnyViolation criterion engineResult els)
               else if evaluationStrategy criterion = ''ALL_PASS''
               then Inr (mapAllPass criterion engineResult els)
               else Inr (mkMapped criterion Manual [] [] els))"

text \<open>The loop of \<^verbatim>\<open>mapPageResults\<close>: the first throw leaves the loop.\<close>

fun mapAll ::
  "RgaaCriterion list \<Rightarrow> AnalyzeResult option \<Rightarrow> CollectedData option
     \<Rightarrow> error + MappedCriterion list" where
  "mapAll [] axeResults collectedData = Inr []"
| "mapAll (criterion # rest) axeResults collectedData =
     (case mapCriterion criterion axeResults collectedData of
        Inl e \<Rightarrow> Inl e
      | Inr mapped \<Rightarrow>
          (case mapAll rest axeResults collectedData of
             Inl e \<Rightarrow> Inl e
           | Inr ms \<Rightarrow> Inr (mapped # ms)))"

definition mapPageResults ::
  "RgaaCriterion list \<Rightarrow> AnalyzeResult option \<Rightarrow> CollectedData option \<Rightarrow> string
     \<Rightarrow> error + MappedPage" where
  "mapPageResults mapping axeResults collectedData u =
     (case mapAll mapping axeResults collectedData of
        Inl e \<Rightarrow> Inl e
      | Inr cs \<Rightarrow> Inr \<lparr>url = u, criteria = cs\<rparr>)"

section \<open>aggregateResults\<close>

text \<open>
  \<^verbatim>\<open>criteriaMap\<close> is a JavaScript \<^verbatim>\<open>Map\<close>: iteration follows the order of first insertion
  and \<^verbatim>\<open>set\<close> on a key already present replaces the value in place. That is
  \<^const>\<open>AList.update\<close> on an association list.
\<close>

definition initAggregated :: "RgaaCriterion \<Rightarrow> AggregatedCriterion" where
  "initAggregated criterion =
     \<lparr>a_rgaaId = rgaa_id criterion, a_title = rgaa_title criterion,
      a_theme = rgaa_theme criterion, a_status = Pass,
      pagesViolating = [], pagesPass = [], pagesManual = [], pagesIncomplete = []\<rparr>"

definition initCriteriaMap :: "RgaaCriterion list \<Rightarrow> (string \<times> AggregatedCriterion) list" where
  "initCriteriaMap mapping =
     fold (\<lambda>criterion m. AList.update (rgaa_id criterion) (initAggregated criterion) m)
       mapping []"

text \<open>The \<^verbatim>\<open>switch (criterion.status)\<close> of the aggregation loop.\<close>

definition addPage :: "CriterionStatus \<Rightarrow> string \<Rightarrow> AggregatedCriterion \<Rightarrow> AggregatedCriterion"
  where
  "addPage st u agg =
     (case st of
        Violation \<Rightarrow> agg\<lparr>pagesViolating := pagesViolating agg @ [u]\<rparr>
      | Pass \<Rightarrow> agg\<lparr>pagesPass := pagesPass agg @ [u]\<rparr>
      | Manual \<Rightarrow> agg\<lparr>pagesManual := pagesManual agg @ [u]\<rparr>
      | Incomplete \<Rightarrow> agg\<lparr>pagesIncomplete := pagesIncomplete agg @ [u]\<rparr>)"

definition foldCriterion ::
  "string \<Rightarrow> MappedCriterion \<Rightarrow> (string \<times> AggregatedCriterion) list
     \<Rightarrow> (string \<times> AggregatedCriterion) list" where
  "foldCriterion u criterion m =
     (case map_of m (rgaaId criterion) of
        None \<Rightarrow> m
      | Some agg \<Rightarrow> AList.update (rgaaId criterion) (addPage (status criterion) u agg) m)"

definition foldPage ::
  "MappedPage \<Rightarrow> (string \<times> AggregatedCriterion) list \<Rightarrow> (string \<times> AggregatedCriterion) list"
  where
  "foldPage page m = fold (foldCriterion (url page)) (criteria page) m"

definition finalStatus :: "AggregatedCriterion \<Rightarrow> CriterionStatus" where
  "finalStatus agg =
     (if length (pagesViolating agg) > 0 then Violation
      else if length (pagesIncomplete agg) > 0 then Incomplete
      else if length (pagesManual agg) > 0 \<and> length (pagesPass agg) = 0 then Manual
      else if length (pagesPass agg) > 0 then Pass
      else Manual)"

definition computeStatus ::
  "(string \<times> AggregatedCriterion) list \<Rightarrow> (string \<times> AggregatedCriterion) list" where
  "computeStatus m = map (\<lambda>(k, agg). (k, agg\<lparr>a_status := finalStatus agg\<rparr>)) m"

subsection \<open>detectDuplicateLabels\<close>

text \<open>
  \<^verbatim>\<open>toLowerCase\<close> and \<^verbatim>\<open>trim\<close> on the ASCII range: a \<open>string\<close> is a list of bytes, and
  the letters A to Z and the white space characters tab, line feed, vertical tab, form
  feed, carriage return and space are the ones treated.
\<close>

definition lowerChar :: "char \<Rightarrow> char" where
  "lowerChar c =
     (let n = (of_char c :: nat) in if 65 \<le> n \<and> n \<le> 90 then char_of (n + 32) else c)"

definition toLowerCase :: "string \<Rightarrow> string" where
  "toLowerCase s = map lowerChar s"

definition isWhiteSpace :: "char \<Rightarrow> bool" where
  "isWhiteSpace c = ((of_char c :: nat) \<in> {9, 10, 11, 12, 13, 32})"

definition trim :: "string \<Rightarrow> string" where
  "trim s = rev (dropWhile isWhiteSpace (rev (dropWhile isWhiteSpace s)))"

text \<open>One entry \<^verbatim>\<open>{ url, collectedData }\<close> of \<^verbatim>\<open>allCollectedData\<close>.\<close>

record CollectedEntry =
  ce_url :: string
  ce_collectedData :: "CollectedData option"

definition lookupUrls :: "(string \<times> string list) list \<Rightarrow> string \<Rightarrow> string list" where
  "lookupUrls labelMap k = (case map_of labelMap k of None \<Rightarrow> [] | Some urls \<Rightarrow> urls)"

text \<open>\<^verbatim>\<open>Set.add\<close>: a set of destinations kept as a duplicate-free list.\<close>

definition setAdd :: "string \<Rightarrow> string list \<Rightarrow> string list" where
  "setAdd x xs = (if x \<in> set xs then xs else xs @ [x])"

text \<open>The body of the first loop over the links of one page.\<close>

definition labelStep ::
  "LinkData \<Rightarrow> (string \<times> string list) list \<Rightarrow> (string \<times> string list) list" where
  "labelStep link labelMap =
     (case accessibleLabel link of
        None \<Rightarrow> labelMap
      | Some label \<Rightarrow>
          if label = [] \<or> trim label = [] then labelMap
          else
            let normalized = trim (toLowerCase label);
                labelMap1 = (if map_of labelMap normalized = None
                             then AList.update normalized [] labelMap else labelMap)
            in (case href link of
                  None \<Rightarrow> labelMap1
                | Some h \<Rightarrow>
                    if h = [] then labelMap1
                    else AList.update normalized (setAdd h (lookupUrls labelMap1 normalized))
                           labelMap1))"

definition entryStep ::
  "CollectedEntry \<Rightarrow> (string \<times> string list) list \<Rightarrow> (string \<times> string list) list" where
  "entryStep entry labelMap =
     (case ce_collectedData entry of
        None \<Rightarrow> labelMap
      | Some cd \<Rightarrow> fold labelStep (links cd) labelMap)"

definition buildLabelMap :: "CollectedEntry list \<Rightarrow> (string \<times> string list) list" where
  "buildLabelMap allCollectedData = fold entryStep allCollectedData []"

definition duplicateLabelsOf :: "(string \<times> string list) list \<Rightarrow> string list" where
  "duplicateLabelsOf labelMap = map fst (filter (\<lambda>(label, urls). length urls > 1) labelMap)"

text \<open>
  \<^verbatim>\<open>elements.find((e) => e.selector === link.selector)\<close>, then the push of the flag onto
  the element found, or the push of a new element.
\<close>

fun addDuplicateFlag :: "string \<Rightarrow> Element list \<Rightarrow> Element list" where
  "addDuplicateFlag sel [] = [\<lparr>selector = sel, flags = [''DUPLICATE_LABEL'']\<rparr>]"
| "addDuplicateFlag sel (e # es) =
     (if selector e = sel
      then (if ''DUPLICATE_LABEL'' \<in> set (flags e) then e
            else e\<lparr>flags := flags e @ [''DUPLICATE_LABEL'']\<rparr>) # es
      else e # addDuplicateFlag sel es)"

text \<open>The body of the second loop over the links of one page, on criterion 6.1.\<close>

definition markLink :: "string list \<Rightarrow> LinkData \<Rightarrow> MappedCriterion \<Rightarrow> MappedCriterion" where
  "markLink duplicateLabels link criterion61 =
     (case accessibleLabel link of
        None \<Rightarrow> criterion61
      | Some label \<Rightarrow>
          if label = [] then criterion61
          else if trim (toLowerCase label) \<in> set duplicateLabels
          then
            let c = criterion61\<lparr>elements := addDuplicateFlag (l_selector link) (elements criterion61)\<rparr>
            in if status c = Pass then c\<lparr>status := Violation\<rparr> else c
          else criterion61)"

text \<open>The object found by \<^verbatim>\<open>page.criteria.find\<close> is mutated where it sits in the array.\<close>

fun updateFirst :: "('a \<Rightarrow> bool) \<Rightarrow> ('a \<Rightarrow> 'a) \<Rightarrow> 'a list \<Rightarrow> 'a list" where
  "updateFirst P f [] = []"
| "updateFirst P f (x # xs) = (if P x then f x # xs else x # updateFirst P f xs)"

definition markPage :: "string list \<Rightarrow> CollectedEntry list \<Rightarrow> MappedPage \<Rightarrow> MappedPage" where
  "markPage duplicateLabels allCollectedData page =
     (case find (\<lambda>c. rgaaId c = ''6.1'') (criteria page) of
        None \<Rightarrow> page
      | Some _ \<Rightarrow>
          (case find (\<lambda>d. ce_url d = url page) allCollectedData of
             None \<Rightarrow> page
           | Some pageData \<Rightarrow>
               (case ce_collectedData pageData of
                  None \<Rightarrow> page
                | Some cd \<Rightarrow>
                    page\<lparr>criteria :=
                      updateFirst (\<lambda>c. rgaaId c = ''6.1'')
                        (\<lambda>c. fold (markLink duplicateLabels) (links cd) c)
                        (criteria page)\<rparr>)))"

text \<open>
  \<^verbatim>\<open>detectDuplicateLabels\<close> returns nothing and mutates the mapped pages; the model
  returns the mapped pages after the call. Mapped pages are values here: no two pages share
  a criterion object and no two criteria an element, which is how \<^verbatim>\<open>mapPageResults\<close>
  builds them.
\<close>

definition detectDuplicateLabels :: "MappedPage list \<Rightarrow> CollectedEntry list \<Rightarrow> MappedPage list"
  where
  "detectDuplicateLabels mappedPages allCollectedData =
     (let duplicateLabels = duplicateLabelsOf (buildLabelMap allCollectedData)
      in if length duplicateLabels = 0 then mappedPages
         else map (markPage duplicateLabels allCollectedData) mappedPages)"

subsection \<open>The summary\<close>

definition countStatus :: "CriterionStatus \<Rightarrow> AggregatedCriterion list \<Rightarrow> nat" where
  "countStatus st cs = length (filter (\<lambda>c. a_status c = st) cs)"

definition topIssuesOf :: "AggregatedCriterion list \<Rightarrow> TopIssue list" where
  "topIssuesOf cs =
     map (\<lambda>c. \<lparr>t_rgaaId = a_rgaaId c, t_title = a_title c,
               pagesAffected = length (pagesViolating c)\<rparr>)
       (take 5
         (sort_key (\<lambda>c. - int (length (pagesViolating c)))
           (filter (\<lambda>c. length (pagesViolating c) > 0) cs)))"

text \<open>
  The aggregated criteria are computed from the mapped pages as they are on entry; the
  call of \<^verbatim>\<open>detectDuplicateLabels\<close> comes after the statuses are final and touches the
  mapped pages only. The result pairs the summary with the mapped pages as the call leaves
  them.
\<close>

definition aggregatedCriteria :: "RgaaCriterion list \<Rightarrow> MappedPage list \<Rightarrow> AggregatedCriterion list"
  where
  "aggregatedCriteria mapping mappedPages =
     map snd (computeStatus (fold foldPage mappedPages (initCriteriaMap mapping)))"

definition aggregateResults ::
  "RgaaCriterion list \<Rightarrow> MappedPage list \<Rightarrow> CollectedEntry list option
     \<Rightarrow> AuditReportSummary \<times> MappedPage list" where
  "aggregateResults mapping mappedPages allCollectedData =
     (let cs = aggregatedCriteria mapping mappedPages;
          mappedPages1 = (case allCollectedData of
                            None \<Rightarrow> mappedPages
                          | Some acd \<Rightarrow> detectDuplicateLabels mappedPages acd)
      in (\<lparr>totalCriteria = length cs,
           automated = length (filter (\<lambda>c. a_status c \<noteq> Manual) cs),
           s_violations = countStatus Violation cs,
           s_passes = countStatus Pass cs,
           s_manual = countStatus Manual cs,
           s_incomplete = countStatus Incomplete cs,
           topIssues = topIssuesOf cs,
           s_criteria = cs\<rparr>, mappedPages1))"

section \<open>The audit worker pool\<close>

text \<open>
  \<^verbatim>\<open>analyzer.ts\<close>. The pool is asynchronous JavaScript: one thread, and a worker gives up
  control only at an \<^verbatim>\<open>await\<close>. The model is a transition system whose steps are the
  synchronous blocks between two awaits. What lies outside the repository is taken as
  follows. The Playwright calls \<^verbatim>\<open>newContext\<close>, \<^verbatim>\<open>newPage\<close>, \<^verbatim>\<open>close\<close> and the
  file-system calls \<^verbatim>\<open>mkdir\<close> and \<^verbatim>\<open>writeFile\<close> resolve normally, each at a moment the
  scheduler chooses. Every call of \<^verbatim>\<open>saveSessionState\<close> in a run writes and renames the
  same path \<^verbatim>\<open>audit-<sessionId>.json.tmp\<close>, so the temp file is shared by the workers: a
  \<^verbatim>\<open>writeFile\<close> replaces its content, in one piece, when it resolves; a \<^verbatim>\<open>rename\<close> moves
  the temp file, whoever wrote it last, to the session file and resolves, or rejects
  (\<^verbatim>\<open>ENOENT\<close>) when another worker's \<^verbatim>\<open>rename\<close> has already moved it away. The optional
  callback \<^verbatim>\<open>onPageComplete\<close> is absent; time stamps are inputs.
\<close>

subsection \<open>Numbers\<close>

text \<open>
  \<^verbatim>\<open>maxConcurrent\<close> reaches \<^verbatim>\<open>auditPages\<close> unvalidated, so it is any JavaScript number: a
  finite one (taken here as a rational; \<^verbatim>\<open>-0\<close> behaves as \<^verbatim>\<open>0\<close> in what follows),
  \<^verbatim>\<open>NaN\<close> or an infinity. \<open>mathMin\<close> is \<^verbatim>\<open>Math.min\<close> on two arguments, \<open>jsLessThan\<close> the
  operator \<^verbatim>\<open><\<close>.
\<close>

datatype jsNumber = Num rat | NaN | PosInfinity | NegInfinity

fun mathMin :: "jsNumber \<Rightarrow> jsNumber \<Rightarrow> jsNumber" where
  "mathMin NaN y = NaN"
| "mathMin (Num a) NaN = NaN"
| "mathMin PosInfinity NaN = NaN"
| "mathMin NegInfinity NaN = NaN"
| "mathMin NegInfinity (Num b) = NegInfinity"
| "mathMin NegInfinity PosInfinity = NegInfinity"
| "mathMin NegInfinity NegInfinity = NegInfinity"
| "mathMin (Num a) NegInfinity = NegInfinity"
| "mathMin PosInfinity NegInfinity = NegInfinity"
| "mathMin PosInfinity (Num b) = Num b"
| "mathMin PosInfinity PosInfinity = PosInfinity"
| "mathMin (Num a) PosInfinity = Num a"
| "mathMin (Num a) (Num b) = Num (min a b)"

fun jsLessThan :: "jsNumber \<Rightarrow> jsNumber \<Rightarrow> bool" where
  "jsLessThan (Num a) (Num b) = (a < b)"
| "jsLessThan (Num a) PosInfinity = True"
| "jsLessThan NegInfinity (Num b) = True"
| "jsLessThan NegInfinity PosInfinity = True"
| "jsLessThan _ _ = False"

record PageResult =
  r_url :: string
  auditedAt :: string
  r_axeResults :: "AnalyzeResult option"
  r_collectedData :: "CollectedData option"
  r_error :: "string option"

text \<open>\<open>completedCount\<close> is the field \<^verbatim>\<open>completedPages\<close> of the source's \<^verbatim>\<open>AuditSummary\<close>.\<close>

record AuditSummary =
  totalPages :: nat
  completedCount :: nat
  failedPages :: nat
  startedAt :: string
  finishedAt :: string

datatype ProgressEvent =
    PageStart string
  | PageComplete string PageResult
  | PageError string string
  | AuditComplete AuditSummary

record SessionState =
  sessionId :: string
  ss_startedAt :: string
  ss_totalPages :: nat
  completedPages :: "string list"
  pendingPages :: "string list"
  results :: "(string \<times> PageResult) list"

subsection \<open>auditPage\<close>

text \<open>
  \<^verbatim>\<open>auditPage\<close> wraps navigation and evidence extraction in one \<^verbatim>\<open>try\<close>: it never
  rejects, and what it returns is decided by what the browser did. That is the
  \<open>outcome\<close>: either both extractions returned, or something threw a message. The first
  component is the value of \<^verbatim>\<open>new Date().toISOString()\<close>.
\<close>

datatype outcome = Audited string AnalyzeResult CollectedData | Failed string string

definition auditPage :: "string \<Rightarrow> outcome \<Rightarrow> PageResult" where
  "auditPage u out =
     (case out of
        Audited now ar cd \<Rightarrow>
          \<lparr>r_url = u, auditedAt = now, r_axeResults = Some ar, r_collectedData = Some cd,
           r_error = None\<rparr>
      | Failed now message \<Rightarrow>
          \<lparr>r_url = u, auditedAt = now, r_axeResults = None, r_collectedData = None,
           r_error = Some message\<rparr>)"

subsection \<open>The state of a run\<close>

text \<open>
  Where a worker is suspended. \<^verbatim>\<open>saveSessionState\<close> has three awaits of its own; the
  session is serialised (\<^verbatim>\<open>JSON.stringify(state)\<close>) when \<^verbatim>\<open>mkdir\<close> has resolved, and
  that snapshot is what the pending \<^verbatim>\<open>writeFile\<close> carries. A \<^verbatim>\<open>rename\<close> that rejects
  throws out of \<^verbatim>\<open>saveSessionState\<close> and out of the \<^verbatim>\<open>try\<close> block: the \<^verbatim>\<open>finally\<close>
  clause still awaits \<^verbatim>\<open>page.close()\<close> (\<open>AwaitCloseRejected\<close>), then the exception leaves
  the loop and the worker's promise is rejected (\<open>Rejected\<close>).
\<close>

datatype saveStage = AwaitMkdir | AwaitWriteFile SessionState | AwaitRename

datatype worker =
    AwaitNewPage string
  | AwaitAuditPage string
  | AwaitSave string PageResult saveStage
  | AwaitClose string
  | AwaitCloseRejected string
  | Exited
  | Rejected

text \<open>
  \<open>eventBuffer\<close> is the buffer of the generator, \<open>yielded\<close> the events the generator has
  handed to its consumer so far, \<open>tmpFile\<close> the content of the temp file when it exists,
  \<open>savedStates\<close> the successive contents of the session file (a \<^verbatim>\<open>rename\<close> that resolves
  adds one).
\<close>

record pool =
  inputUrls :: "string list"
  urlQueue :: "string list"
  state :: SessionState
  eventBuffer :: "ProgressEvent list"
  yielded :: "ProgressEvent list"
  workers :: "worker list"
  allDone :: bool
  tmpFile :: "SessionState option"
  savedStates :: "SessionState list"

text \<open>\<^verbatim>\<open>Math.min(options.maxConcurrent ?? 2, 3)\<close>.\<close>

definition concurrency :: "jsNumber option \<Rightarrow> jsNumber" where
  "concurrency maxConcurrent =
     mathMin (case maxConcurrent of None \<Rightarrow> Num 2 | Some n \<Rightarrow> n) (Num 3)"

text \<open>
  The loop \<^verbatim>\<open>for (let i = 0; i < concurrency; i++) contexts.push(...)\<close>, entered with the
  counter at \<open>i\<close>: the value of the counter when the loop is left, which is the number of
  contexts created when it is entered at 0.
\<close>

function createContexts :: "jsNumber option \<Rightarrow> nat \<Rightarrow> nat" where
  "createContexts maxConcurrent i =
     (if jsLessThan (Num (of_nat i)) (concurrency maxConcurrent)
      then createContexts maxConcurrent (Suc i)
      else i)"
  by pat_completeness auto

termination
proof (relation "measure (\<lambda>(maxConcurrent, i). 3 - i)")
  show "wf (measure (\<lambda>(maxConcurrent :: jsNumber option, i). 3 - i))" by simp
next
  fix maxConcurrent :: "jsNumber option" and i :: nat
  assume a: "jsLessThan (Num (of_nat i)) (concurrency maxConcurrent)"
  have "i < 3"
  proof (cases "case maxConcurrent of None \<Rightarrow> Num 2 | Some n \<Rightarrow> n")
    case (Num q)
    with a have "of_nat i < min q 3" by (simp add: concurrency_def)
    then have "(of_nat i :: rat) < of_nat 3" by simp
    then show ?thesis by (simp only: of_nat_less_iff)
  next
    case NaN
    with a show ?thesis by (simp add: concurrency_def)
  next
    case PosInfinity
    with a have "(of_nat i :: rat) < of_nat 3" by (simp add: concurrency_def)
    then show ?thesis by (simp only: of_nat_less_iff)
  next
    case NegInfinity
    with a show ?thesis by (simp add: concurrency_def)
  qed
  then show "((maxConcurrent, Suc i), (maxConcurrent, i)) \<in> measure (\<lambda>(maxConcurrent, i). 3 - i)"
    by simp
qed

declare createContexts.simps [simp del]

definition pushEvent :: "ProgressEvent \<Rightarrow> pool \<Rightarrow> pool" where
  "pushEvent event c = c\<lparr>eventBuffer := eventBuffer c @ [event]\<rparr>"

text \<open>
  The head of the worker's \<^verbatim>\<open>while\<close> loop up to \<^verbatim>\<open>await ctx.newPage()\<close>: where the
  worker is next, and the pool it leaves.
\<close>

definition whileHead :: "pool \<Rightarrow> worker \<times> pool" where
  "whileHead c =
     (case urlQueue c of
        [] \<Rightarrow> (Exited, c)
      | u # rest \<Rightarrow> (AwaitNewPage u, pushEvent (PageStart u) (c\<lparr>urlQueue := rest\<rparr>)))"

text \<open>\<^verbatim>\<open>contexts.map((ctx) => worker(ctx))\<close> runs each worker up to its first await, in turn.\<close>

definition startWorker :: "pool \<Rightarrow> pool" where
  "startWorker c = (case whileHead c of (w, c1) \<Rightarrow> c1\<lparr>workers := workers c1 @ [w]\<rparr>)"

definition startPool :: "string list \<Rightarrow> jsNumber option \<Rightarrow> string \<Rightarrow> string \<Rightarrow> pool" where
  "startPool urls maxConcurrent sid now =
     (startWorker ^^ createContexts maxConcurrent 0)
       \<lparr>inputUrls = urls, urlQueue = urls,
        state = \<lparr>sessionId = sid, ss_startedAt = now, ss_totalPages = length urls,
                 completedPages = [], pendingPages = urls, results = []\<rparr>,
        eventBuffer = [], yielded = [], workers = [], allDone = False, tmpFile = None,
        savedStates = []\<rparr>"

subsection \<open>Steps\<close>

text \<open>
  An action is the settling of the await a worker is suspended at, the callback of
  \<^verbatim>\<open>Promise.all\<close> once every worker has returned, or the generator handing one buffered
  event to its consumer. \<^verbatim>\<open>Promise.all(...).then(callback)\<close> runs its callback only when
  the promise of every worker is fulfilled; a rejected worker leaves it rejected, the
  callback never runs and \<^verbatim>\<open>allDone\<close> stays false.
\<close>

datatype action =
    NewPageResolved nat
  | AuditPageResolved nat outcome
  | MkdirResolved nat
  | WriteFileResolved nat
  | RenameSettled nat
  | CloseResolved nat
  | WorkersDone string
  | Yield

definition workerAt :: "pool \<Rightarrow> nat \<Rightarrow> worker option" where
  "workerAt c i = (if i < length (workers c) then Some (workers c ! i) else None)"

definition setWorker :: "nat \<Rightarrow> worker \<Rightarrow> pool \<Rightarrow> pool" where
  "setWorker i w c = c\<lparr>workers := (workers c)[i := w]\<rparr>"

text \<open>\<^verbatim>\<open>if (result.error)\<close>: null and the empty string are falsy.\<close>

definition terminalEvent :: "string \<Rightarrow> PageResult \<Rightarrow> ProgressEvent" where
  "terminalEvent u result =
     (case r_error result of
        None \<Rightarrow> PageComplete u result
      | Some message \<Rightarrow> if message = [] then PageComplete u result else PageError u message)"

text \<open>
  \<^verbatim>\<open>state.results\<close> is the object literal \<^verbatim>\<open>{}\<close>, which inherits from
  \<^verbatim>\<open>Object.prototype\<close>; the list holds its own enumerable properties, which are what
  \<^verbatim>\<open>Object.values\<close> and \<^verbatim>\<open>JSON.stringify\<close> read. The assignment \<^verbatim>\<open>obj[key] = value\<close>
  with the key \<^verbatim>\<open>__proto__\<close> runs the inherited setter, which makes the value (an object)
  the prototype of \<^verbatim>\<open>obj\<close> and creates no property. With any other key it creates the
  property, or replaces its value in place. (JavaScript enumerates integer-like keys
  first; the order is not kept here, only membership and number are read.)
\<close>

definition setProperty :: "string \<Rightarrow> 'v \<Rightarrow> (string \<times> 'v) list \<Rightarrow> (string \<times> 'v) list" where
  "setProperty key v props =
     (if key = ''__proto__'' then props else AList.update key v props)"

text \<open>The three assignments to \<^verbatim>\<open>state\<close> after \<^verbatim>\<open>auditPage\<close> has returned.\<close>

definition recordResult :: "string \<Rightarrow> PageResult \<Rightarrow> SessionState \<Rightarrow> SessionState" where
  "recordResult u result st =
     st\<lparr>pendingPages := filter (\<lambda>x. x \<noteq> u) (pendingPages st),
        completedPages := completedPages st @ [u],
        results := setProperty u result (results st)\<rparr>"

definition failedCount :: "(string \<times> PageResult) list \<Rightarrow> nat" where
  "failedCount rs =
     length (filter (\<lambda>kv. case r_error (snd kv) of None \<Rightarrow> False | Some m \<Rightarrow> m \<noteq> []) rs)"

definition summaryOf :: "pool \<Rightarrow> string \<Rightarrow> AuditSummary" where
  "summaryOf c now =
     \<lparr>totalPages = length (inputUrls c),
      completedCount = length (completedPages (state c)),
      failedPages = failedCount (results (state c)),
      startedAt = ss_startedAt (state c),
      finishedAt = now\<rparr>"

fun step :: "action \<Rightarrow> pool \<Rightarrow> pool option" where
  "step (NewPageResolved i) c =
     (case workerAt c i of
        Some (AwaitNewPage u) \<Rightarrow> Some (setWorker i (AwaitAuditPage u) c)
      | _ \<Rightarrow> None)"
| "step (AuditPageResolved i out) c =
     (case workerAt c i of
        Some (AwaitAuditPage u) \<Rightarrow>
          Some (setWorker i (AwaitSave u (auditPage u out) AwaitMkdir)
                 (pushEvent (terminalEvent u (auditPage u out))
                    (c\<lparr>state := recordResult u (auditPage u out) (state c)\<rparr>)))
      | _ \<Rightarrow> None)"
| "step (MkdirResolved i) c =
     (case workerAt c i of
        Some (AwaitSave u result AwaitMkdir) \<Rightarrow>
          Some (setWorker i (AwaitSave u result (AwaitWriteFile (state c))) c)
      | _ \<Rightarrow> None)"
| "step (WriteFileResolved i) c =
     (case workerAt c i of
        Some (AwaitSave u result (AwaitWriteFile snapshot)) \<Rightarrow>
          Some (setWorker i (AwaitSave u result AwaitRename) (c\<lparr>tmpFile := Some snapshot\<rparr>))
      | _ \<Rightarrow> None)"
| "step (RenameSettled i) c =
     (case workerAt c i of
        Some (AwaitSave u result AwaitRename) \<Rightarrow>
          (case tmpFile c of
             Some content \<Rightarrow>
               Some (setWorker i (AwaitClose u)
                      (c\<lparr>tmpFile := None, savedStates := savedStates c @ [content]\<rparr>))
           | None \<Rightarrow> Some (setWorker i (AwaitCloseRejected u) c))
      | _ \<Rightarrow> None)"
| "step (CloseResolved i) c =
     (case workerAt c i of
        Some (AwaitClose u) \<Rightarrow> (case whileHead c of (w, c1) \<Rightarrow> Some (setWorker i w c1))
      | Some (AwaitCloseRejected u) \<Rightarrow> Some (setWorker i Rejected c)
      | _ \<Rightarrow> None)"
| "step (WorkersDone now) c =
     (if \<not> allDone c \<and> list_all (\<lambda>w. w = Exited) (workers c)
      then Some (pushEvent (AuditComplete (summaryOf c now)) (c\<lparr>allDone := True\<rparr>))
      else None)"
| "step Yield c =
     (case eventBuffer c of
        [] \<Rightarrow> None
      | event # rest \<Rightarrow> Some (c\<lparr>eventBuffer := rest, yielded := yielded c @ [event]\<rparr>))"

text \<open>A schedule is a list of actions; it runs as long as each action is enabled.\<close>

fun exec :: "action list \<Rightarrow> pool \<Rightarrow> pool option" where
  "exec [] c = Some c"
| "exec (a # as) c = (case step a c of None \<Rightarrow> None | Some c1 \<Rightarrow> exec as c1)"

text \<open>
  The generator leaves its loop \<^verbatim>\<open>while (!allDone || eventBuffer.length > 0)\<close>: the stream
  is complete, and it is \<open>yielded\<close>.
\<close>

definition finished :: "pool \<Rightarrow> bool" where
  "finished c = (allDone c \<and> eventBuffer c = [])"

subsection \<open>Reading the event stream\<close>

definition pushed :: "pool \<Rightarrow> ProgressEvent list" where
  "pushed c = yielded c @ eventBuffer c"

fun startUrl :: "ProgressEvent \<Rightarrow> string list" where
  "startUrl (PageStart u) = [u]"
| "startUrl _ = []"

fun terminalUrl :: "ProgressEvent \<Rightarrow> string list" where
  "terminalUrl (PageComplete u _) = [u]"
| "terminalUrl (PageError u _) = [u]"
| "terminalUrl _ = []"

fun isAuditComplete :: "ProgressEvent \<Rightarrow> bool" where
  "isAuditComplete (AuditComplete _) = True"
| "isAuditComplete _ = False"

definition startUrls :: "ProgressEvent list \<Rightarrow> string list" where
  "startUrls es = concat (map startUrl es)"

definition terminalUrls :: "ProgressEvent list \<Rightarrow> string list" where
  "terminalUrls es = concat (map terminalUrl es)"

text \<open>The URL a worker has dequeued and not yet recorded in the session.\<close>

fun inFlight :: "worker \<Rightarrow> string list" where
  "inFlight (AwaitNewPage u) = [u]"
| "inFlight (AwaitAuditPage u) = [u]"
| "inFlight _ = []"

fun saving :: "worker \<Rightarrow> bool" where
  "saving (AwaitSave _ _ _) = True"
| "saving _ = False"

text \<open>A worker whose \<^verbatim>\<open>saveSessionState\<close> has thrown.\<close>

fun failed :: "worker \<Rightarrow> bool" where
  "failed (AwaitCloseRejected _) = True"
| "failed Rejected = True"
| "failed _ = False"

text \<open>
  The snapshots of the session that have reached the file system or are on their way to
  it: the successive contents of the session file, the content of the temp file, and the
  data of the \<^verbatim>\<open>writeFile\<close> calls that have not resolved yet.
\<close>

fun held :: "worker \<Rightarrow> SessionState list" where
  "held (AwaitSave _ _ (AwaitWriteFile snapshot)) = [snapshot]"
| "held _ = []"

definition snapshots :: "pool \<Rightarrow> SessionState list" where
  "snapshots c =
     savedStates c @ (case tmpFile c of None \<Rightarrow> [] | Some content \<Rightarrow> [content])
       @ concat (map held (workers c))"

text \<open>A bound on the number of steps a run has left.\<close>

fun weight :: "worker \<Rightarrow> nat" where
  "weight (AwaitNewPage _) = 7"
| "weight (AwaitAuditPage _) = 6"
| "weight (AwaitSave _ _ AwaitMkdir) = 4"
| "weight (AwaitSave _ _ (AwaitWriteFile _)) = 3"
| "weight (AwaitSave _ _ AwaitRename) = 2"
| "weight (AwaitClose _) = 1"
| "weight (AwaitCloseRejected _) = 1"
| "weight Exited = 0"
| "weight Rejected = 0"

definition stepsLeft :: "pool \<Rightarrow> nat" where
  "stepsLeft c =
     8 * length (urlQueue c) + sum_list (map weight (workers c)) + length (eventBuffer c)
       + (if allDone c then 0 else 2)"

section \<open>Sample inputs\<close>

text \<open>
  Concrete inputs in the shape the repository's unit tests build them
  (\<^verbatim>\<open>makeAxeResult\<close>, \<^verbatim>\<open>makeCollectedData\<close>), and a three-entry catalog with the
  criteria those tests look up: 1.1 (images), 6.1 (links) and 8.6 (page title).
\<close>

definition sampleCriterion ::
  "string \<Rightarrow> string \<Rightarrow> string list \<Rightarrow> string list \<Rightarrow> RgaaCriterion" where
  "sampleCriterion i strategy rules fl =
     \<lparr>rgaa_id = i, rgaa_title = ''t'', rgaa_theme = ''th'', wcag = [],
      axeRules = rules, evaluationStrategy = strategy, dataCollectorFlags = fl,
      limits = ''''\<rparr>"

definition sampleMapping :: "RgaaCriterion list" where
  "sampleMapping =
     [sampleCriterion ''1.1'' ''ANY_VIOLATION'' [''image-alt''] [''ALT_ABSENT''],
      sampleCriterion ''6.1'' ''ANY_VIOLATION'' [''link-name''] [''GENERIC_LABEL''],
      sampleCriterion ''8.6'' ''MANUAL_ONLY'' [''document-title''] [''TITLE_GENERIC'']]"

definition sampleViolation :: "string \<Rightarrow> AxeViolation" where
  "sampleViolation r =
     \<lparr>v_rule = r, v_impact = ''critical'', v_description = '''', v_helpUrl = '''',
      v_elements = []\<rparr>"

definition samplePass :: "string \<Rightarrow> AxePass" where
  "samplePass r = \<lparr>p_rule = r, p_description = ''ok'', p_elements = []\<rparr>"

definition sampleLink :: "string \<Rightarrow> string \<Rightarrow> string \<Rightarrow> LinkData" where
  "sampleLink sel label h =
     \<lparr>l_selector = sel, l_tagName = ''a'', accessibleLabel = Some label, href = Some h,
      opensNewWindow = False, hasNewWindowWarning = False, l_flags = [''GENERIC_LABEL'']\<rparr>"

definition sampleCollected :: "LinkData list \<Rightarrow> string list \<Rightarrow> CollectedData" where
  "sampleCollected ls pageFlags =
     \<lparr>images = [], links = ls,
      headings = \<lparr>documentTitle = ''Test'',
                  ht_headings = [\<lparr>h_level = 1, h_text = ''T'', h_selector = ''h1'',
                                  h_flags = []\<rparr>],
                  ht_flags = pageFlags\<rparr>\<rparr>"

text \<open>A page on which axe-core reports only passes, among them \<^verbatim>\<open>link-name\<close>.\<close>

definition passingResult :: AnalyzeResult where
  "passingResult =
     Result \<lparr>violations = [], passes = [samplePass ''link-name''], incomplete = []\<rparr>"

text \<open>
  Two pages, each with one link; the labels differ in case and surrounding blanks only,
  the destinations differ.
\<close>

definition collected1 :: CollectedData where
  "collected1 = sampleCollected [sampleLink ''a#m1'' ''Lire la suite'' ''/a-1''] []"

definition collected2 :: CollectedData where
  "collected2 = sampleCollected [sampleLink ''a#m2'' '' lire la Suite '' ''/a-2''] []"

definition dupPage :: "string \<Rightarrow> string \<Rightarrow> MappedPage" where
  "dupPage u sel =
     \<lparr>url = u,
      criteria =
        [mkMapped (sampleMapping ! 0) Pass [] [] [],
         mkMapped (sampleMapping ! 1) Pass [] []
           [\<lparr>selector = sel, flags = [''GENERIC_LABEL'']\<rparr>],
         mkMapped (sampleMapping ! 2) Manual [] [] []]\<rparr>"

definition dupCollected :: "CollectedEntry list" where
  "dupCollected =
     [\<lparr>ce_url = ''p1'', ce_collectedData = Some collected1\<rparr>,
      \<lparr>ce_url = ''p2'', ce_collectedData = Some collected2\<rparr>]"

text \<open>
  Schedules of the worker pool. \<open>schedule2\<close> is a whole run of two workers over two pages,
  the second page finishing first; \<open>schedule3\<close> a whole run of three workers over three
  pages; in both, each checkpoint is written and renamed before the next one is begun.
  \<open>midSchedule\<close> stops while one worker waits for \<^verbatim>\<open>auditPage\<close> and the other, its
  checkpoint installed, for \<^verbatim>\<open>page.close()\<close>. In \<open>raceSchedule\<close> the checkpoints of two workers
  overlap: worker 0 serialises the session before the second page is recorded, and its
  \<^verbatim>\<open>writeFile\<close> resolves last.
\<close>

definition schedule2 :: "action list" where
  "schedule2 =
     [NewPageResolved 0, NewPageResolved 1,
      AuditPageResolved 1 (Failed ''t1'' ''boom''), Yield, Yield,
      AuditPageResolved 0 (Audited ''t2'' passingResult collected1),
      MkdirResolved 1, WriteFileResolved 1, RenameSettled 1, CloseResolved 1,
      MkdirResolved 0, WriteFileResolved 0, RenameSettled 0, CloseResolved 0,
      WorkersDone ''t3'', Yield, Yield, Yield]"

definition schedule3 :: "action list" where
  "schedule3 =
     [NewPageResolved 0, NewPageResolved 1, NewPageResolved 2,
      AuditPageResolved 2 (Failed ''t1'' ''boom''),
      MkdirResolved 2, WriteFileResolved 2, RenameSettled 2, CloseResolved 2,
      AuditPageResolved 0 (Failed ''t2'' ''timeout''), Yield, Yield, Yield,
      AuditPageResolved 1 (Failed ''t3'' ''boom''),
      MkdirResolved 0, WriteFileResolved 0, RenameSettled 0, CloseResolved 0,
      MkdirResolved 1, WriteFileResolved 1, RenameSettled 1, CloseResolved 1,
      WorkersDone ''t4'', Yield, Yield, Yield, Yield]"

definition schedule1 :: "action list" where
  "schedule1 =
     [NewPageResolved 0, AuditPageResolved 0 (Failed ''t1'' ''boom''),
      MkdirResolved 0, WriteFileResolved 0, RenameSettled 0, CloseResolved 0,
      WorkersDone ''t2'', Yield, Yield, Yield]"

definition midSchedule :: "action list" where
  "midSchedule =
     [NewPageResolved 0, NewPageResolved 1,
      AuditPageResolved 1 (Failed ''t1'' ''boom''),
      MkdirResolved 1, WriteFileResolved 1, RenameSettled 1]"

definition raceSchedule :: "action list" where
  "raceSchedule =
     [NewPageResolved 0, NewPageResolved 1,
      AuditPageResolved 0 (Failed ''t1'' ''boom''), MkdirResolved 0,
      AuditPageResolved 1 (Failed ''t2'' ''late''), MkdirResolved 1,
      WriteFileResolved 1, WriteFileResolved 0,
      RenameSettled 1, RenameSettled 0,
      CloseResolved 1, CloseResolved 0,
      Yield, Yield, Yield, Yield]"



section \<open>Notions used to state the properties\<close>


text \<open>
  The pages on which criterion \<open>k\<close> has status \<open>st\<close>, once per classification, in
  page order: what the aggregation loop pushes onto the matching page list.
\<close>

definition pagesWithStatus :: "CriterionStatus \<Rightarrow> string \<Rightarrow> MappedPage list \<Rightarrow> string list" where
  "pagesWithStatus st k pages =
     concat (map (\<lambda>page. map (\<lambda>c. url page)
       (filter (\<lambda>c. rgaaId c = k \<and> status c = st) (criteria page))) pages)"

text \<open>The effect of the whole aggregation loop on the entry of criterion \<open>k\<close>.\<close>

definition addPages :: "string \<Rightarrow> MappedPage list \<Rightarrow> AggregatedCriterion \<Rightarrow> AggregatedCriterion" where
  "addPages k pages agg =
     agg\<lparr>pagesViolating := pagesViolating agg @ pagesWithStatus Violation k pages,
         pagesPass := pagesPass agg @ pagesWithStatus Pass k pages,
         pagesManual := pagesManual agg @ pagesWithStatus Manual k pages,
         pagesIncomplete := pagesIncomplete agg @ pagesWithStatus Incomplete k pages\<rparr>"

text \<open>An entry of \<^verbatim>\<open>criteriaMap\<close> before any page is folded in.\<close>

definition freshEntry :: "string \<times> AggregatedCriterion \<Rightarrow> bool" where
  "freshEntry e = (a_rgaaId (snd e) = fst e \<and> pagesViolating (snd e) = [] \<and> pagesPass (snd e) = []
      \<and> pagesManual (snd e) = [] \<and> pagesIncomplete (snd e) = [])"

text \<open>The destinations recorded under a label are kept without repetition.\<close>

definition distinctUrls :: "(string \<times> string list) list \<Rightarrow> bool" where
  "distinctUrls m = (\<forall>k. distinct (lookupUrls m k))"

text \<open>Some element with the given selector carries the flag \<^verbatim>\<open>DUPLICATE_LABEL\<close>.\<close>

definition flagged :: "string \<Rightarrow> Element list \<Rightarrow> bool" where
  "flagged sel es = list_ex (\<lambda>e. selector e = sel \<and> ''DUPLICATE_LABEL'' \<in> set (flags e)) es"

subsection \<open>Invariants of the worker pool\<close>

text \<open>
  The events pushed so far, against the queue, the session and the workers: the page
  starts pushed are the part of the input already dequeued; the terminal events pushed are
  the completed pages, in order; and every page dequeued is either completed or still held
  by a worker that has not recorded it yet.
\<close>

definition inv_events :: "string list \<Rightarrow> pool \<Rightarrow> bool" where
  "inv_events urls c =
     (startUrls (pushed c) @ urlQueue c = urls
      \<and> terminalUrls (pushed c) = completedPages (state c)
      \<and> mset (completedPages (state c)) + mset (concat (map inFlight (workers c)))
          = mset (startUrls (pushed c)))"

text \<open>
  The session: the pending pages are the input without the completed ones, and the result
  map has an entry for the completed pages, \<^verbatim>\<open>__proto__\<close> apart, and for nothing else.
\<close>

definition inv_session :: "string list \<Rightarrow> pool \<Rightarrow> bool" where
  "inv_session urls c =
     (inputUrls c = urls
      \<and> pendingPages (state c) = filter (\<lambda>u. u \<notin> set (completedPages (state c))) urls
      \<and> fst ` set (results (state c)) = set (completedPages (state c)) - {''__proto__''})"

text \<open>A worker leaves its loop only when the queue is empty, and the queue never grows.\<close>

definition inv_exit :: "pool \<Rightarrow> bool" where
  "inv_exit c = (list_ex (\<lambda>w. w = Exited) (workers c) \<longrightarrow> urlQueue c = [])"

text \<open>
  What holds of a page whose checkpoint is being written: its terminal event is already
  pushed, and the session, as well as the snapshot taken of it, has the page completed, not
  pending, and (\<^verbatim>\<open>__proto__\<close> apart) with a result.
\<close>

definition goodSnapshot :: "string \<Rightarrow> SessionState \<Rightarrow> bool" where
  "goodSnapshot u snap =
     (u \<in> set (completedPages snap) \<and> u \<notin> set (pendingPages snap)
      \<and> (u = ''__proto__'' \<or> u \<in> fst ` set (results snap)))"

fun savingOk :: "pool \<Rightarrow> worker \<Rightarrow> bool" where
  "savingOk c (AwaitSave u r stage) =
     (terminalEvent u r \<in> set (pushed c) \<and> goodSnapshot u (state c)
      \<and> (case stage of
            AwaitMkdir \<Rightarrow> True
          | AwaitWriteFile snap \<Rightarrow> goodSnapshot u snap
          | AwaitRename \<Rightarrow> True))"
| "savingOk c _ = True"

text \<open>
  Every completed page has had a checkpoint installed, has its checkpoint under way, or
  has seen it fail.
\<close>

definition inv_saves :: "pool \<Rightarrow> bool" where
  "inv_saves c =
     (length (savedStates c) + length (filter saving (workers c))
        + length (filter failed (workers c))
        = length (completedPages (state c))
      \<and> list_all (savingOk c) (workers c))"

text \<open>
  A snapshot on its way to the file system, or already there, is an earlier value of the
  session: the pages it has completed are the first of those completed so far.
\<close>

definition inv_snapshots :: "pool \<Rightarrow> bool" where
  "inv_snapshots c =
     list_all (\<lambda>snap. prefix (completedPages snap) (completedPages (state c))) (snapshots c)"

text \<open>
  \<^verbatim>\<open>audit_complete\<close> is pushed once, when every worker has returned, and nothing is
  pushed after it.
\<close>

definition inv_done :: "pool \<Rightarrow> bool" where
  "inv_done c =
     (if allDone c
      then list_all (\<lambda>w. w = Exited) (workers c)
           \<and> (\<exists>xs now. pushed c = xs @ [AuditComplete (summaryOf c now)]
                 \<and> \<not> list_ex isAuditComplete xs)
      else \<not> list_ex isAuditComplete (pushed c))"

definition poolInv :: "string list \<Rightarrow> pool \<Rightarrow> bool" where
  "poolInv urls c =
     (inv_events urls c \<and> inv_session urls c \<and> inv_exit c \<and> inv_done c \<and> inv_saves c
      \<and> inv_snapshots c)"

text \<open>
  With a single worker the checkpoints cannot overlap: the temp file is there whenever the
  worker waits for its \<^verbatim>\<open>rename\<close>, and no \<^verbatim>\<open>rename\<close> has been rejected.
\<close>

fun soloOk :: "pool \<Rightarrow> worker \<Rightarrow> bool" where
  "soloOk c (AwaitSave u r AwaitRename) = (tmpFile c \<noteq> None)"
| "soloOk c (AwaitCloseRejected u) = False"
| "soloOk c Rejected = False"
| "soloOk c _ = True"

definition inv_solo :: "pool \<Rightarrow> bool" where
  "inv_solo c = (\<exists>w. workers c = [w] \<and> soloOk c w)"

text \<open>
  A state in which no checkpoint is half-way: there is no temp file, and no worker is
  between the call of \<^verbatim>\<open>writeFile\<close> and the settling of \<^verbatim>\<open>rename\<close>, or has seen it
  fail.
\<close>

fun calmWorker :: "worker \<Rightarrow> bool" where
  "calmWorker (AwaitSave u r AwaitMkdir) = True"
| "calmWorker (AwaitSave u r stage) = False"
| "calmWorker (AwaitCloseRejected u) = False"
| "calmWorker Rejected = False"
| "calmWorker _ = True"

definition calm :: "pool \<Rightarrow> bool" where
  "calm c = (tmpFile c = None \<and> list_all calmWorker (workers c))"

section \<open>Properties of the criterion evaluator\<close>


















text \<open>
  Claim C5. For a criterion whose strategy is \<^verbatim>\<open>ANY_VIOLATION\<close> and a rule-engine result
  that is present and not an error, the status is Violation if and only if some reported
  violation has a rule id of the criterion; otherwise Incomplete if and only if some
  incomplete finding has one; otherwise Pass.
\<close>

theorem mapCriterion_anyViolation:
  assumes "evaluationStrategy criterion = ''ANY_VIOLATION''"
  shows "\<exists>m. mapCriterion criterion (Some (Result r)) collectedData = Inr m
           \<and> status m =
               (if \<exists>v\<in>set (violations r). v_rule v \<in> set (axeRules criterion) then Violation
                else if \<exists>i\<in>set (incomplete r). i_rule i \<in> set (axeRules criterion)
                     then Incomplete
                else Pass)"
  using assms
  by (auto simp: mapCriterion_def mapAnyViolation_def mkMapped_def Let_def filter_empty_conv)

theorem mapCriterion_anyViolation_witness:
  "evaluationStrategy (sampleMapping ! 0) = ''ANY_VIOLATION''
   \<and> (\<exists>m. mapCriterion (sampleMapping ! 0)
             (Some (Result \<lparr>violations = [sampleViolation ''image-alt''], passes = [],
                             incomplete = []\<rparr>)) None = Inr m
           \<and> status m = Violation)
   \<and> (\<exists>m. mapCriterion (sampleMapping ! 0)
             (Some (Result \<lparr>violations = [sampleViolation ''link-name''],
                             passes = [samplePass ''image-alt''], incomplete = []\<rparr>)) None = Inr m
           \<and> status m = Pass)"
proof -
  have s: "evaluationStrategy (sampleMapping ! 0) = ''ANY_VIOLATION''"
    by (simp add: sampleMapping_def sampleCriterion_def)
  have r: "axeRules (sampleMapping ! 0) = [''image-alt'']"
    by (simp add: sampleMapping_def sampleCriterion_def)
  show ?thesis
    using s
      mapCriterion_anyViolation [OF s,
        of "\<lparr>violations = [sampleViolation ''image-alt''], passes = [], incomplete = []\<rparr>" None]
      mapCriterion_anyViolation [OF s,
        of "\<lparr>violations = [sampleViolation ''link-name''],
             passes = [samplePass ''image-alt''], incomplete = []\<rparr>" None]
    by (simp add: r sampleViolation_def)
qed

text \<open>
  Claim C6. For a criterion whose strategy is \<^verbatim>\<open>ALL_PASS\<close> and a rule-engine result that
  is present and not an error, the status is Violation if some reported violation has a
  rule id of the criterion; otherwise Pass if and only if every rule id of the criterion
  occurs among the passing findings; otherwise Incomplete.
\<close>

theorem mapCriterion_allPass:
  assumes "evaluationStrategy criterion = ''ALL_PASS''"
  shows "\<exists>m. mapCriterion criterion (Some (Result r)) collectedData = Inr m
           \<and> status m =
               (if \<exists>v\<in>set (violations r). v_rule v \<in> set (axeRules criterion) then Violation
                else if \<forall>rule\<in>set (axeRules criterion). rule \<in> p_rule ` set (passes r)
                     then Pass
                else Incomplete)"
  using assms
  by (auto simp: mapCriterion_def mapAllPass_def mkMapped_def Let_def filter_empty_conv
      list_all_iff)

theorem mapCriterion_allPass_witness:
  "evaluationStrategy (sampleCriterion ''9.1'' ''ALL_PASS'' [''heading-order'', ''empty-heading''] [])
     = ''ALL_PASS''
   \<and> (\<exists>m. mapCriterion
             (sampleCriterion ''9.1'' ''ALL_PASS'' [''heading-order'', ''empty-heading''] [])
             (Some (Result \<lparr>violations = [], passes = [samplePass ''heading-order''],
                             incomplete = []\<rparr>)) None = Inr m
           \<and> status m = Incomplete)
   \<and> (\<exists>m. mapCriterion
             (sampleCriterion ''9.1'' ''ALL_PASS'' [''heading-order'', ''empty-heading''] [])
             (Some (Result \<lparr>violations = [],
                             passes = [samplePass ''empty-heading'', samplePass ''heading-order''],
                             incomplete = []\<rparr>)) None = Inr m
           \<and> status m = Pass)"
proof -
  let ?c = "sampleCriterion ''9.1'' ''ALL_PASS'' [''heading-order'', ''empty-heading''] []"
  have s: "evaluationStrategy ?c = ''ALL_PASS''"
    by (simp add: sampleCriterion_def)
  have r: "axeRules ?c = [''heading-order'', ''empty-heading'']"
    by (simp add: sampleCriterion_def)
  show ?thesis
    using s
      mapCriterion_allPass [OF s,
        of "\<lparr>violations = [], passes = [samplePass ''heading-order''], incomplete = []\<rparr>" None]
      mapCriterion_allPass [OF s,
        of "\<lparr>violations = [],
             passes = [samplePass ''empty-heading'', samplePass ''heading-order''],
             incomplete = []\<rparr>" None]
    by (simp add: r samplePass_def)
qed

section \<open>Properties of the aggregation\<close>

lemma pagesWithStatus_empty_iff:
  "(pagesWithStatus st k pages = []) =
     (\<not> (\<exists>page\<in>set pages. \<exists>c\<in>set (criteria page). rgaaId c = k \<and> status c = st))"
  by (auto simp: pagesWithStatus_def filter_empty_conv)

lemma keys_foldCriterion: "map fst (foldCriterion u c m) = map fst m"
  by (auto simp: foldCriterion_def update_keys map_of_eq_None_iff [symmetric]
      split: option.splits)

lemma map_of_foldCriterion:
  "map_of (foldCriterion u c m) k =
     map_option (\<lambda>agg. if rgaaId c = k then addPage (status c) u agg else agg) (map_of m k)"
  by (cases "map_of m k") (auto simp: foldCriterion_def update_conv' split: option.splits)

lemma keys_fold_foldCriterion: "map fst (fold (foldCriterion u) cs m) = map fst m"
  by (induction cs arbitrary: m) (simp_all add: keys_foldCriterion)

lemma keys_fold_foldPage: "map fst (fold foldPage pages m) = map fst m"
  by (induction pages arbitrary: m) (simp_all add: foldPage_def keys_fold_foldCriterion)

lemma addPages_Nil: "addPages k [] agg = agg"
  by (simp add: addPages_def pagesWithStatus_def)

lemma map_of_fold_foldCriterion:
  "map_of (fold (foldCriterion u) cs m) k =
     map_option (addPages k [\<lparr>url = u, criteria = cs\<rparr>]) (map_of m k)"
proof (induction cs arbitrary: m)
  case Nil
  show ?case by (cases "map_of m k") (simp_all add: addPages_Nil addPages_def pagesWithStatus_def)
next
  case (Cons c cs)
  show ?case
    by (cases "map_of m k"; cases "status c")
       (simp_all add: Cons map_of_foldCriterion addPages_def pagesWithStatus_def addPage_def)
qed

lemma addPages_Cons:
  "addPages k (page # pages) agg = addPages k pages (addPages k [page] agg)"
  by (simp add: addPages_def pagesWithStatus_def)

lemma map_of_fold_foldPage:
  "map_of (fold foldPage pages m) k = map_option (addPages k pages) (map_of m k)"
proof (induction pages arbitrary: m)
  case Nil
  show ?case by (cases "map_of m k") (simp_all add: addPages_Nil)
next
  case (Cons page pages)
  have "addPages k [\<lparr>url = url page, criteria = criteria page\<rparr>] = addPages k [page]"
    by (simp add: addPages_def pagesWithStatus_def fun_eq_iff)
  then have "map_of (foldPage page m) k = map_option (addPages k [page]) (map_of m k)"
    using map_of_fold_foldCriterion [of "url page" "criteria page" m k]
    by (simp add: foldPage_def)
  then show ?case
    by (cases "map_of m k") (simp_all add: Cons addPages_Cons [of k page pages])
qed

lemma set_update_subset: "set (AList.update k v al) \<subseteq> insert (k, v) (set al)"
  by (induction al) auto

lemma fold_init_fresh:
  "\<forall>e\<in>set m. freshEntry e \<Longrightarrow>
   \<forall>e\<in>set (fold (\<lambda>criterion m. AList.update (rgaa_id criterion) (initAggregated criterion) m)
               mapping m). freshEntry e"
proof (induction mapping arbitrary: m)
  case Nil
  then show ?case by simp
next
  case (Cons c mapping)
  have "\<forall>e\<in>set (AList.update (rgaa_id c) (initAggregated c) m). freshEntry e"
    using Cons.prems set_update_subset [of "rgaa_id c" "initAggregated c" m]
    by (auto simp: freshEntry_def initAggregated_def)
  then show ?case using Cons.IH by simp
qed

lemma fold_init_distinct:
  "distinct (map fst m) \<Longrightarrow>
   distinct (map fst (fold (\<lambda>criterion m. AList.update (rgaa_id criterion) (initAggregated criterion) m)
               mapping m))"
  by (induction mapping arbitrary: m) (simp_all add: distinct_update)

lemma fold_init_keys:
  "fst ` set (fold (\<lambda>criterion m. AList.update (rgaa_id criterion) (initAggregated criterion) m)
               mapping m) = fst ` set m \<union> rgaa_id ` set mapping"
  by (induction mapping arbitrary: m) (auto simp: dom_update)

lemma fold_init_keys_distinct:
  "distinct (map fst m @ map rgaa_id mapping) \<Longrightarrow>
   map fst (fold (\<lambda>criterion m. AList.update (rgaa_id criterion) (initAggregated criterion) m)
               mapping m) = map fst m @ map rgaa_id mapping"
proof (induction mapping arbitrary: m)
  case Nil
  show ?case by simp
next
  case (Cons c mapping)
  let ?m1 = "AList.update (rgaa_id c) (initAggregated c) m"
  have k: "map fst ?m1 = map fst m @ [rgaa_id c]"
    using Cons.prems by (simp add: update_keys)
  have "distinct (map fst ?m1 @ map rgaa_id mapping)"
    using Cons.prems unfolding k by auto
  from Cons.IH [OF this] show ?case by (simp add: k)
qed

lemma initCriteriaMap_fresh: "\<forall>e\<in>set (initCriteriaMap mapping). freshEntry e"
  unfolding initCriteriaMap_def by (rule fold_init_fresh) simp

lemma initCriteriaMap_distinct: "distinct (map fst (initCriteriaMap mapping))"
  unfolding initCriteriaMap_def by (rule fold_init_distinct) simp

lemma initCriteriaMap_keys: "fst ` set (initCriteriaMap mapping) = rgaa_id ` set mapping"
  unfolding initCriteriaMap_def by (simp add: fold_init_keys)

lemma initCriteriaMap_keys_distinct:
  "distinct (map rgaa_id mapping) \<Longrightarrow> map fst (initCriteriaMap mapping) = map rgaa_id mapping"
  unfolding initCriteriaMap_def using fold_init_keys_distinct [of "[]" mapping] by simp

lemma folded_entry:
  assumes "(k, agg) \<in> set (fold foldPage pages (initCriteriaMap mapping))"
  shows "a_rgaaId agg = k \<and> pagesViolating agg = pagesWithStatus Violation k pages
       \<and> pagesPass agg = pagesWithStatus Pass k pages
       \<and> pagesManual agg = pagesWithStatus Manual k pages
       \<and> pagesIncomplete agg = pagesWithStatus Incomplete k pages"
proof -
  have d: "distinct (map fst (fold foldPage pages (initCriteriaMap mapping)))"
    by (simp add: keys_fold_foldPage initCriteriaMap_distinct)
  from assms d have "map_of (fold foldPage pages (initCriteriaMap mapping)) k = Some agg"
    by simp
  then obtain agg0 where a0: "map_of (initCriteriaMap mapping) k = Some agg0"
    and agg: "agg = addPages k pages agg0"
    by (auto simp: map_of_fold_foldPage)
  from a0 have "(k, agg0) \<in> set (initCriteriaMap mapping)" by (rule map_of_SomeD)
  then have "freshEntry (k, agg0)" using initCriteriaMap_fresh by blast
  then show ?thesis by (simp add: agg addPages_def freshEntry_def)
qed

lemma aggregatedCriteria_entry:
  assumes "agg \<in> set (aggregatedCriteria mapping pages)"
  shows "pagesViolating agg = pagesWithStatus Violation (a_rgaaId agg) pages
       \<and> pagesPass agg = pagesWithStatus Pass (a_rgaaId agg) pages
       \<and> pagesManual agg = pagesWithStatus Manual (a_rgaaId agg) pages
       \<and> pagesIncomplete agg = pagesWithStatus Incomplete (a_rgaaId agg) pages
       \<and> a_status agg = finalStatus agg"
proof -
  from assms obtain k agg0 where
    m: "(k, agg0) \<in> set (fold foldPage pages (initCriteriaMap mapping))"
    and agg: "agg = agg0\<lparr>a_status := finalStatus agg0\<rparr>"
    by (auto simp: aggregatedCriteria_def computeStatus_def)
  from folded_entry [OF m] show ?thesis
    by (simp add: agg finalStatus_def)
qed

lemma aggregatedCriteria_ids:
  "map a_rgaaId (aggregatedCriteria mapping pages) = map fst (initCriteriaMap mapping)"
proof -
  let ?m = "fold foldPage pages (initCriteriaMap mapping)"
  have "\<forall>e\<in>set ?m. a_rgaaId (snd e) = fst e"
    using folded_entry [of _ _ pages mapping] by auto
  then have "map (\<lambda>e. a_rgaaId (snd e)) ?m = map fst ?m"
    by simp
  then show ?thesis
    by (simp add: aggregatedCriteria_def computeStatus_def comp_def case_prod_beta
        keys_fold_foldPage)
qed

text \<open>
  Claim C3. Whatever the mapped pages (and the collected data handed over for the
  duplicate-label pass) are, the final status of every aggregated criterion follows the
  precedence: Violation if some page classifies the criterion as a violation; else
  Incomplete if some page classifies it as incomplete; else Manual if some page classifies
  it as manual and none as pass; else Pass if some page classifies it as pass; else Manual.
\<close>

theorem aggregate_status_precedence:
  "\<forall>agg\<in>set (s_criteria (fst (aggregateResults mapping mappedPages allCollectedData))).
     a_status agg =
       (let has = (\<lambda>st. \<exists>page\<in>set mappedPages. \<exists>c\<in>set (criteria page).
                          rgaaId c = a_rgaaId agg \<and> status c = st)
        in if has Violation then Violation
           else if has Incomplete then Incomplete
           else if has Manual \<and> \<not> has Pass then Manual
           else if has Pass then Pass
           else Manual)"
proof
  fix agg
  assume "agg \<in> set (s_criteria (fst (aggregateResults mapping mappedPages allCollectedData)))"
  then have "agg \<in> set (aggregatedCriteria mapping mappedPages)"
    by (simp add: aggregateResults_def Let_def)
  note e = aggregatedCriteria_entry [OF this]
  let ?has = "\<lambda>st. \<exists>page\<in>set mappedPages. \<exists>c\<in>set (criteria page).
                          rgaaId c = a_rgaaId agg \<and> status c = st"
  have hv: "(pagesViolating agg = []) = (\<not> ?has Violation)"
    using e by (simp add: pagesWithStatus_empty_iff)
  have hi: "(pagesIncomplete agg = []) = (\<not> ?has Incomplete)"
    using e by (simp add: pagesWithStatus_empty_iff)
  have hm: "(pagesManual agg = []) = (\<not> ?has Manual)"
    using e by (simp add: pagesWithStatus_empty_iff)
  have hp: "(pagesPass agg = []) = (\<not> ?has Pass)"
    using e by (simp add: pagesWithStatus_empty_iff)
  have "a_status agg = finalStatus agg" using e by simp
  also have "\<dots> =
       (if ?has Violation then Violation
        else if ?has Incomplete then Incomplete
        else if ?has Manual \<and> \<not> ?has Pass then Manual
        else if ?has Pass then Pass
        else Manual)"
    unfolding finalStatus_def length_greater_0_conv length_0_conv hv hi hm hp by simp
  finally show "a_status agg =
       (let has = (\<lambda>st. \<exists>page\<in>set mappedPages. \<exists>c\<in>set (criteria page).
                          rgaaId c = a_rgaaId agg \<and> status c = st)
        in if has Violation then Violation
           else if has Incomplete then Incomplete
           else if has Manual \<and> \<not> has Pass then Manual
           else if has Pass then Pass
           else Manual)"
    unfolding Let_def .
qed

theorem aggregate_status_precedence_witness:
  "s_criteria (fst (aggregateResults sampleMapping
      [dupPage ''p1'' ''a#m1'', dupPage ''p2'' ''a#m2''] None)) ! 2
     \<in> set (s_criteria (fst (aggregateResults sampleMapping
          [dupPage ''p1'' ''a#m1'', dupPage ''p2'' ''a#m2''] None)))
   \<and> a_rgaaId (s_criteria (fst (aggregateResults sampleMapping
        [dupPage ''p1'' ''a#m1'', dupPage ''p2'' ''a#m2''] None)) ! 2) = ''8.6''
   \<and> a_status (s_criteria (fst (aggregateResults sampleMapping
        [dupPage ''p1'' ''a#m1'', dupPage ''p2'' ''a#m2''] None)) ! 2) = Manual"
proof -
  let ?pages = "[dupPage ''p1'' ''a#m1'', dupPage ''p2'' ''a#m2'']"
  let ?cs = "s_criteria (fst (aggregateResults sampleMapping ?pages None))"
  have len: "length ?cs = 3" by code_simp
  then have mem: "?cs ! 2 \<in> set ?cs" by simp
  have k: "a_rgaaId (?cs ! 2) = ''8.6''" by code_simp
  have v: "\<not> (\<exists>page\<in>set ?pages. \<exists>c\<in>set (criteria page).
              rgaaId c = ''8.6'' \<and> status c = Violation)"
    by (simp add: dupPage_def mkMapped_def sampleMapping_def sampleCriterion_def)
  have i: "\<not> (\<exists>page\<in>set ?pages. \<exists>c\<in>set (criteria page).
              rgaaId c = ''8.6'' \<and> status c = Incomplete)"
    by (simp add: dupPage_def mkMapped_def sampleMapping_def sampleCriterion_def)
  have p: "\<not> (\<exists>page\<in>set ?pages. \<exists>c\<in>set (criteria page).
              rgaaId c = ''8.6'' \<and> status c = Pass)"
    by (simp add: dupPage_def mkMapped_def sampleMapping_def sampleCriterion_def)
  have "a_status (?cs ! 2) =
          (if (\<exists>page\<in>set ?pages. \<exists>c\<in>set (criteria page).
                 rgaaId c = ''8.6'' \<and> status c = Manual)
              \<and> \<not> (\<exists>page\<in>set ?pages. \<exists>c\<in>set (criteria page).
                      rgaaId c = ''8.6'' \<and> status c = Pass)
           then Manual
           else if \<exists>page\<in>set ?pages. \<exists>c\<in>set (criteria page).
                     rgaaId c = ''8.6'' \<and> status c = Pass
                then Pass else Manual)"
    using aggregate_status_precedence [of sampleMapping ?pages None, THEN bspec, OF mem]
    unfolding Let_def k if_not_P [OF v] if_not_P [OF i] .
  then have "a_status (?cs ! 2) = Manual"
    unfolding if_not_P [OF p] by (simp only: if_cancel)
  with mem k show ?thesis by (simp only: simp_thms)
qed

text \<open>
  Claim C2, as the code has it. Over zero pages the result holds every identifier of the
  catalog exactly once (one entry per catalog criterion, in catalog order, when the
  catalog's identifiers are distinct), and the final status of every entry is Manual: no
  page list is filled, so the last branch of the status computation is taken, and the
  initial Pass is overwritten.
\<close>

theorem aggregate_zero_pages:
  "distinct (map a_rgaaId (s_criteria (fst (aggregateResults mapping [] allCollectedData))))
   \<and> a_rgaaId ` set (s_criteria (fst (aggregateResults mapping [] allCollectedData)))
       = rgaa_id ` set mapping
   \<and> (distinct (map rgaa_id mapping) \<longrightarrow>
        map a_rgaaId (s_criteria (fst (aggregateResults mapping [] allCollectedData)))
          = map rgaa_id mapping)
   \<and> (\<forall>agg\<in>set (s_criteria (fst (aggregateResults mapping [] allCollectedData))).
        a_status agg = Manual)"
proof -
  have cs: "s_criteria (fst (aggregateResults mapping [] allCollectedData))
              = aggregatedCriteria mapping []"
    by (simp add: aggregateResults_def Let_def)
  have ids: "map a_rgaaId (aggregatedCriteria mapping []) = map fst (initCriteriaMap mapping)"
    by (rule aggregatedCriteria_ids)
  have 1: "distinct (map a_rgaaId (aggregatedCriteria mapping []))"
    by (simp add: ids initCriteriaMap_distinct)
  have "set (map a_rgaaId (aggregatedCriteria mapping [])) = rgaa_id ` set mapping"
    unfolding ids using initCriteriaMap_keys [of mapping] by simp
  then have 2: "a_rgaaId ` set (aggregatedCriteria mapping []) = rgaa_id ` set mapping"
    by simp
  have 3: "distinct (map rgaa_id mapping) \<longrightarrow>
        map a_rgaaId (aggregatedCriteria mapping []) = map rgaa_id mapping"
    by (simp add: ids initCriteriaMap_keys_distinct)
  have 4: "\<forall>agg\<in>set (aggregatedCriteria mapping []). a_status agg = Manual"
    using aggregatedCriteria_entry [of _ mapping "[]"]
    by (simp add: finalStatus_def pagesWithStatus_def)
  show ?thesis unfolding cs using 1 2 3 4 by blast
qed

theorem aggregate_zero_pages_witness:
  "distinct (map rgaa_id sampleMapping)
   \<and> map a_rgaaId (s_criteria (fst (aggregateResults sampleMapping [] None)))
       = [''1.1'', ''6.1'', ''8.6'']
   \<and> s_criteria (fst (aggregateResults sampleMapping [] None)) ! 0
       \<in> set (s_criteria (fst (aggregateResults sampleMapping [] None)))
   \<and> a_status (s_criteria (fst (aggregateResults sampleMapping [] None)) ! 0) = Manual"
proof -
  let ?cs = "s_criteria (fst (aggregateResults sampleMapping [] None))"
  have d: "distinct (map rgaa_id sampleMapping)"
    by (simp add: sampleMapping_def sampleCriterion_def)
  have ids: "map rgaa_id sampleMapping = [''1.1'', ''6.1'', ''8.6'']"
    by (simp add: sampleMapping_def sampleCriterion_def)
  note z = aggregate_zero_pages [of sampleMapping None]
  from z d have m: "map a_rgaaId ?cs = [''1.1'', ''6.1'', ''8.6'']"
    unfolding ids by blast
  then have "length ?cs = 3" by (metis length_map length_Cons list.size(3) numeral_3_eq_3)
  then have mem: "?cs ! 0 \<in> set ?cs" by simp
  with z have "a_status (?cs ! 0) = Manual" by blast
  with d m mem show ?thesis by simp
qed

text \<open>
  The statement of claim C2 itself fails on a non-empty catalog: with no page audited,
  no entry of the result has status Pass.
\<close>

theorem aggregate_zero_pages_counterexample:
  "map a_status (s_criteria (fst (aggregateResults sampleMapping [] None)))
     = [Manual, Manual, Manual]"
  by code_simp

subsection \<open>The duplicate-label pass\<close>

text \<open>
  The summary does not depend on the collected data handed to \<^verbatim>\<open>aggregateResults\<close>: the
  duplicate-label pass changes the mapped pages only.
\<close>

lemma summary_ignores_collected:
  "fst (aggregateResults mapping mappedPages (Some allCollectedData))
     = fst (aggregateResults mapping mappedPages None)"
  by (simp add: aggregateResults_def Let_def)

lemma lookupUrls_labelStep_mono:
  "h \<in> set (lookupUrls m k) \<Longrightarrow> h \<in> set (lookupUrls (labelStep l m) k)"
  by (auto simp: labelStep_def lookupUrls_def Let_def update_conv' setAdd_def
      split: option.splits if_splits)

lemma lookupUrls_labelStep_adds:
  assumes "accessibleLabel l = Some a" "trim a \<noteq> []" "href l = Some h" "h \<noteq> []"
  shows "h \<in> set (lookupUrls (labelStep l m) (trim (toLowerCase a)))"
proof -
  from assms(2) have "a \<noteq> []" by (auto simp: trim_def)
  with assms show ?thesis
    by (auto simp: labelStep_def lookupUrls_def Let_def update_conv' setAdd_def
        split: option.splits)
qed

lemma lookupUrls_fold_labelStep_mono:
  "h \<in> set (lookupUrls m k) \<Longrightarrow> h \<in> set (lookupUrls (fold labelStep ls m) k)"
  by (induction ls arbitrary: m) (simp_all add: lookupUrls_labelStep_mono)

lemma lookupUrls_fold_labelStep_adds:
  assumes "l \<in> set ls" "accessibleLabel l = Some a" "trim a \<noteq> []" "href l = Some h" "h \<noteq> []"
  shows "h \<in> set (lookupUrls (fold labelStep ls m) (trim (toLowerCase a)))"
  using assms(1)
proof (induction ls arbitrary: m)
  case Nil
  then show ?case by simp
next
  case (Cons x ls)
  show ?case
  proof (cases "x = l")
    case True
    from lookupUrls_labelStep_adds [OF assms(2-5), of m]
    show ?thesis by (simp add: True lookupUrls_fold_labelStep_mono)
  next
    case False
    with Cons.prems have "l \<in> set ls" by simp
    from Cons.IH [OF this] show ?thesis by simp
  qed
qed

lemma lookupUrls_entryStep_mono:
  "h \<in> set (lookupUrls m k) \<Longrightarrow> h \<in> set (lookupUrls (entryStep e m) k)"
  by (simp add: entryStep_def lookupUrls_fold_labelStep_mono split: option.splits)

lemma lookupUrls_fold_entryStep_mono:
  "h \<in> set (lookupUrls m k) \<Longrightarrow> h \<in> set (lookupUrls (fold entryStep es m) k)"
  by (induction es arbitrary: m) (simp_all add: lookupUrls_entryStep_mono)

lemma lookupUrls_buildLabelMap:
  assumes "e \<in> set acd" "ce_collectedData e = Some cd" "l \<in> set (links cd)"
    "accessibleLabel l = Some a" "trim a \<noteq> []" "href l = Some h" "h \<noteq> []"
  shows "h \<in> set (lookupUrls (buildLabelMap acd) (trim (toLowerCase a)))"
proof -
  have "h \<in> set (lookupUrls (fold entryStep es m) (trim (toLowerCase a)))" if "e \<in> set es"
    for es m
    using that
  proof (induction es arbitrary: m)
    case Nil
    then show ?case by simp
  next
    case (Cons x es)
    show ?case
    proof (cases "x = e")
      case True
      have "h \<in> set (lookupUrls (entryStep e m) (trim (toLowerCase a)))"
        using lookupUrls_fold_labelStep_adds [OF assms(3-7), of m] assms(2)
        by (simp add: entryStep_def)
      then show ?thesis by (simp add: True lookupUrls_fold_entryStep_mono)
    next
      case False
      with Cons.prems have "e \<in> set es" by simp
      from Cons.IH [OF this] show ?thesis by simp
    qed
  qed
  from this [OF assms(1)] show ?thesis by (simp add: buildLabelMap_def)
qed

lemma distinctUrls_labelStep: "distinctUrls m \<Longrightarrow> distinctUrls (labelStep l m)"
  unfolding distinctUrls_def
  by (auto simp: labelStep_def lookupUrls_def Let_def update_conv' setAdd_def
      split: option.splits if_splits)

lemma distinctUrls_fold_labelStep: "distinctUrls m \<Longrightarrow> distinctUrls (fold labelStep ls m)"
  by (induction ls arbitrary: m) (simp_all add: distinctUrls_labelStep)

lemma distinctUrls_fold_entryStep: "distinctUrls m \<Longrightarrow> distinctUrls (fold entryStep es m)"
  by (induction es arbitrary: m)
     (simp_all add: entryStep_def distinctUrls_fold_labelStep split: option.splits)

lemma distinctUrls_buildLabelMap: "distinctUrls (buildLabelMap acd)"
  unfolding buildLabelMap_def
  by (rule distinctUrls_fold_entryStep) (simp add: distinctUrls_def lookupUrls_def)

lemma duplicateLabelsOf_iff:
  "k \<in> set (duplicateLabelsOf m) \<longleftrightarrow> (\<exists>urls. (k, urls) \<in> set m \<and> length urls > 1)"
  by (auto simp: duplicateLabelsOf_def image_iff)

lemma duplicate_label_detected:
  assumes "e1 \<in> set acd" "ce_collectedData e1 = Some cd1" "l1 \<in> set (links cd1)"
    "accessibleLabel l1 = Some a1" "trim a1 \<noteq> []" "href l1 = Some h1" "h1 \<noteq> []"
    and "e2 \<in> set acd" "ce_collectedData e2 = Some cd2" "l2 \<in> set (links cd2)"
    "accessibleLabel l2 = Some a2" "trim a2 \<noteq> []" "href l2 = Some h2" "h2 \<noteq> []"
    and same: "trim (toLowerCase a1) = trim (toLowerCase a2)"
    and diff: "h1 \<noteq> h2"
  shows "trim (toLowerCase a1) \<in> set (duplicateLabelsOf (buildLabelMap acd))"
proof -
  let ?m = "buildLabelMap acd" and ?k = "trim (toLowerCase a1)"
  have 1: "h1 \<in> set (lookupUrls ?m ?k)"
    using assms(1-7) by (rule lookupUrls_buildLabelMap)
  have 2: "h2 \<in> set (lookupUrls ?m ?k)"
    unfolding same using assms(8-14) by (rule lookupUrls_buildLabelMap)
  from 1 obtain urls where u: "map_of ?m ?k = Some urls"
    by (cases "map_of ?m ?k") (auto simp: lookupUrls_def)
  then have l: "lookupUrls ?m ?k = urls" by (simp add: lookupUrls_def)
  have "distinct urls"
    using distinctUrls_buildLabelMap [of acd] l by (auto simp: distinctUrls_def)
  moreover from 1 2 l have "h1 \<in> set urls" "h2 \<in> set urls" by simp_all
  ultimately have "length urls > 1"
    using diff by (cases urls; cases "tl urls") auto
  moreover from u have "(?k, urls) \<in> set ?m" by (rule map_of_SomeD)
  ultimately show ?thesis unfolding duplicateLabelsOf_iff by blast
qed

lemma flagged_addDuplicateFlag: "flagged sel (addDuplicateFlag sel es)"
  by (induction es) (simp_all add: flagged_def)

lemma flagged_addDuplicateFlag_mono: "flagged s es \<Longrightarrow> flagged s (addDuplicateFlag sel es)"
  by (induction es) (auto simp: flagged_def)

lemma markLink_rgaaId [simp]: "rgaaId (markLink dups l c) = rgaaId c"
  by (simp add: markLink_def Let_def split: option.splits)

lemma markLink_flagged_mono:
  "flagged s (elements c) \<Longrightarrow> flagged s (elements (markLink dups l c))"
  by (simp add: markLink_def Let_def flagged_addDuplicateFlag_mono split: option.splits)

lemma markLink_status:
  "status (markLink dups l c) = status c
   \<or> (status c = Pass \<and> status (markLink dups l c) = Violation)"
  by (simp add: markLink_def Let_def split: option.splits)

lemma markLink_hit:
  assumes "accessibleLabel l = Some a" "a \<noteq> []" "trim (toLowerCase a) \<in> set dups"
  shows "flagged (l_selector l) (elements (markLink dups l c))"
    and "status (markLink dups l c) \<noteq> Pass"
  using assms by (simp_all add: markLink_def Let_def flagged_addDuplicateFlag)

lemma fold_markLink_rgaaId [simp]: "rgaaId (fold (markLink dups) ls c) = rgaaId c"
  by (induction ls arbitrary: c) simp_all

lemma fold_markLink_flagged_mono:
  "flagged s (elements c) \<Longrightarrow> flagged s (elements (fold (markLink dups) ls c))"
  by (induction ls arbitrary: c) (simp_all add: markLink_flagged_mono)

lemma fold_markLink_status:
  "status (fold (markLink dups) ls c) = status c
   \<or> (status c = Pass \<and> status (fold (markLink dups) ls c) = Violation)"
proof (induction ls arbitrary: c)
  case Nil
  show ?case by simp
next
  case (Cons l ls)
  from Cons.IH [of "markLink dups l c"] markLink_status [of dups l c]
  show ?case by auto
qed

lemma fold_markLink_notPass_mono:
  "status c \<noteq> Pass \<Longrightarrow> status (fold (markLink dups) ls c) \<noteq> Pass"
  using fold_markLink_status [of dups ls c] by auto

lemma fold_markLink_hit:
  assumes "l \<in> set ls" "accessibleLabel l = Some a" "a \<noteq> []"
    "trim (toLowerCase a) \<in> set dups"
  shows "flagged (l_selector l) (elements (fold (markLink dups) ls c))
       \<and> status (fold (markLink dups) ls c) \<noteq> Pass"
  using assms(1)
proof (induction ls arbitrary: c)
  case Nil
  then show ?case by simp
next
  case (Cons x ls)
  show ?case
  proof (cases "x = l")
    case True
    from markLink_hit [OF assms(2-4), of c] show ?thesis
      by (simp add: True fold_markLink_flagged_mono fold_markLink_notPass_mono)
  next
    case False
    with Cons.prems have "l \<in> set ls" by simp
    from Cons.IH [OF this] show ?thesis by simp
  qed
qed

lemma find_updateFirst:
  assumes "\<And>x. P x \<Longrightarrow> P (f x)"
  shows "find P (updateFirst P f xs) = map_option f (find P xs)"
  using assms by (induction xs) auto

text \<open>
  The flag part of claim C1, and the upgrade of the page's own classification, hold for
  every input: if two links of the collected data with non-blank labels that normalise to
  the same string have different non-empty destinations, then on every mapped page that
  has a criterion 6.1 and whose collected data (the first entry under the page's URL)
  holds such a link, criterion 6.1 of the page carries \<^verbatim>\<open>DUPLICATE_LABEL\<close> on an element
  with the link's selector after \<^verbatim>\<open>detectDuplicateLabels\<close>, and its status is Violation if
  it was Pass.
\<close>

lemma detectDuplicateLabels_page:
  assumes dup: "trim (toLowerCase a) \<in> set (duplicateLabelsOf (buildLabelMap acd))"
    and page: "i < length mappedPages" "mappedPages ! i = page"
    and c61: "find (\<lambda>c. rgaaId c = ''6.1'') (criteria page) = Some c0"
    and entry: "find (\<lambda>d. ce_url d = url page) acd = Some d" "ce_collectedData d = Some cd"
    and link: "l \<in> set (links cd)" "accessibleLabel l = Some a" "a \<noteq> []"
  shows "\<exists>c. find (\<lambda>c. rgaaId c = ''6.1'')
               (criteria (detectDuplicateLabels mappedPages acd ! i)) = Some c
           \<and> flagged (l_selector l) (elements c)
           \<and> status c \<noteq> Pass
           \<and> (status c0 = Pass \<longrightarrow> status c = Violation)"
proof -
  let ?dups = "duplicateLabelsOf (buildLabelMap acd)"
  let ?c = "fold (markLink ?dups) (links cd) c0"
  from dup have "length ?dups \<noteq> 0" by auto
  then have "detectDuplicateLabels mappedPages acd ! i = markPage ?dups acd page"
    using page by (simp add: detectDuplicateLabels_def Let_def)
  moreover have "criteria (markPage ?dups acd page)
      = updateFirst (\<lambda>c. rgaaId c = ''6.1'') (\<lambda>c. fold (markLink ?dups) (links cd) c)
          (criteria page)"
    using c61 entry by (simp add: markPage_def)
  moreover have "find (\<lambda>c. rgaaId c = ''6.1'')
        (updateFirst (\<lambda>c. rgaaId c = ''6.1'') (\<lambda>c. fold (markLink ?dups) (links cd) c)
          (criteria page)) = Some ?c"
    using c61 by (simp add: find_updateFirst)
  moreover from fold_markLink_hit [OF link dup, of c0]
  have "flagged (l_selector l) (elements ?c)" "status ?c \<noteq> Pass" by simp_all
  moreover have "status c0 = Pass \<longrightarrow> status ?c = Violation"
    using fold_markLink_status [of ?dups "links cd" c0] \<open>status ?c \<noteq> Pass\<close> by auto
  ultimately show ?thesis by simp
qed

text \<open>
  Claim C1, evaluated at two pages that each pass criterion 6.1 and each hold one link
  with the same normalised label and a different destination. The mapped pages are what
  \<^verbatim>\<open>mapPageResults\<close> returns for them. After \<^verbatim>\<open>aggregateResults\<close> both mapped pages carry
  the flag \<^verbatim>\<open>DUPLICATE_LABEL\<close> on the link's element and their own status for 6.1 is
  Violation (as \<open>duplicate_label_detected\<close> and \<open>detectDuplicateLabels_page\<close> show for every
  input), but the aggregated status of 6.1 in the summary is still Pass, with both pages
  listed as passing and none as violating: the statuses of the summary are final before
  the duplicate-label pass runs, and the pass never touches them
  (\<open>summary_ignores_collected\<close>).
\<close>

theorem duplicate_label_summary_unchanged:
  "mapPageResults sampleMapping (Some passingResult) (Some collected1) ''p1''
     = Inr (dupPage ''p1'' ''a#m1'')
   \<and> mapPageResults sampleMapping (Some passingResult) (Some collected2) ''p2''
     = Inr (dupPage ''p2'' ''a#m2'')
   \<and> map (\<lambda>agg. (a_rgaaId agg, a_status agg, pagesViolating agg, pagesPass agg))
        (s_criteria (fst (aggregateResults sampleMapping
           [dupPage ''p1'' ''a#m1'', dupPage ''p2'' ''a#m2''] (Some dupCollected))))
     = [(''1.1'', Pass, [], [''p1'', ''p2'']), (''6.1'', Pass, [], [''p1'', ''p2'']),
        (''8.6'', Manual, [], [])]
   \<and> map (\<lambda>p. map (\<lambda>c. (rgaaId c, status c, elements c)) (criteria p))
        (snd (aggregateResults sampleMapping
           [dupPage ''p1'' ''a#m1'', dupPage ''p2'' ''a#m2''] (Some dupCollected)))
     = [[(''1.1'', Pass, []),
         (''6.1'', Violation,
          [\<lparr>selector = ''a#m1'', flags = [''GENERIC_LABEL'', ''DUPLICATE_LABEL'']\<rparr>]),
         (''8.6'', Manual, [])],
        [(''1.1'', Pass, []),
         (''6.1'', Violation,
          [\<lparr>selector = ''a#m2'', flags = [''GENERIC_LABEL'', ''DUPLICATE_LABEL'']\<rparr>]),
         (''8.6'', Manual, [])]]"
proof -
  have 1: "mapPageResults sampleMapping (Some passingResult) (Some collected1) ''p1''
     = Inr (dupPage ''p1'' ''a#m1'')" by code_simp
  have 2: "mapPageResults sampleMapping (Some passingResult) (Some collected2) ''p2''
     = Inr (dupPage ''p2'' ''a#m2'')" by code_simp
  have 3: "map (\<lambda>agg. (a_rgaaId agg, a_status agg, pagesViolating agg, pagesPass agg))
        (s_criteria (fst (aggregateResults sampleMapping
           [dupPage ''p1'' ''a#m1'', dupPage ''p2'' ''a#m2''] (Some dupCollected))))
     = [(''1.1'', Pass, [], [''p1'', ''p2'']), (''6.1'', Pass, [], [''p1'', ''p2'']),
        (''8.6'', Manual, [], [])]" by code_simp
  have 4: "map (\<lambda>p. map (\<lambda>c. (rgaaId c, status c, elements c)) (criteria p))
        (snd (aggregateResults sampleMapping
           [dupPage ''p1'' ''a#m1'', dupPage ''p2'' ''a#m2''] (Some dupCollected)))
     = [[(''1.1'', Pass, []),
         (''6.1'', Violation,
          [\<lparr>selector = ''a#m1'', flags = [''GENERIC_LABEL'', ''DUPLICATE_LABEL'']\<rparr>]),
         (''8.6'', Manual, [])],
        [(''1.1'', Pass, []),
         (''6.1'', Violation,
          [\<lparr>selector = ''a#m2'', flags = [''GENERIC_LABEL'', ''DUPLICATE_LABEL'']\<rparr>]),
         (''8.6'', Manual, [])]]" by code_simp
  from 1 2 3 4 show ?thesis by blast
qed

section \<open>Properties of the worker pool\<close>

lemma stepE [consumes 1, case_names NewPage Audit Mkdir WriteFile RenameOk RenameFail
    CloseNext CloseExit CloseRejected Done Yield]:
  assumes "step a c = Some c'"
  obtains
    (NewPage) i u where "a = NewPageResolved i" "i < length (workers c)"
      "workers c ! i = AwaitNewPage u" "c' = setWorker i (AwaitAuditPage u) c"
  | (Audit) i out u where "a = AuditPageResolved i out" "i < length (workers c)"
      "workers c ! i = AwaitAuditPage u"
      "c' = setWorker i (AwaitSave u (auditPage u out) AwaitMkdir)
              (pushEvent (terminalEvent u (auditPage u out))
                 (c\<lparr>state := recordResult u (auditPage u out) (state c)\<rparr>))"
  | (Mkdir) i u r where "a = MkdirResolved i" "i < length (workers c)"
      "workers c ! i = AwaitSave u r AwaitMkdir"
      "c' = setWorker i (AwaitSave u r (AwaitWriteFile (state c))) c"
  | (WriteFile) i u r snap where "a = WriteFileResolved i" "i < length (workers c)"
      "workers c ! i = AwaitSave u r (AwaitWriteFile snap)"
      "c' = setWorker i (AwaitSave u r AwaitRename) (c\<lparr>tmpFile := Some snap\<rparr>)"
  | (RenameOk) i u r content where "a = RenameSettled i" "i < length (workers c)"
      "workers c ! i = AwaitSave u r AwaitRename" "tmpFile c = Some content"
      "c' = setWorker i (AwaitClose u)
              (c\<lparr>tmpFile := None, savedStates := savedStates c @ [content]\<rparr>)"
  | (RenameFail) i u r where "a = RenameSettled i" "i < length (workers c)"
      "workers c ! i = AwaitSave u r AwaitRename" "tmpFile c = None"
      "c' = setWorker i (AwaitCloseRejected u) c"
  | (CloseNext) i u v rest where "a = CloseResolved i" "i < length (workers c)"
      "workers c ! i = AwaitClose u" "urlQueue c = v # rest"
      "c' = setWorker i (AwaitNewPage v) (pushEvent (PageStart v) (c\<lparr>urlQueue := rest\<rparr>))"
  | (CloseExit) i u where "a = CloseResolved i" "i < length (workers c)"
      "workers c ! i = AwaitClose u" "urlQueue c = []"
      "c' = setWorker i Exited c"
  | (CloseRejected) i u where "a = CloseResolved i" "i < length (workers c)"
      "workers c ! i = AwaitCloseRejected u" "c' = setWorker i Rejected c"
  | (Done) now where "a = WorkersDone now" "\<not> allDone c"
      "list_all (\<lambda>w. w = Exited) (workers c)"
      "c' = pushEvent (AuditComplete (summaryOf c now)) (c\<lparr>allDone := True\<rparr>)"
  | (Yield) event rest where "a = Yield" "eventBuffer c = event # rest"
      "c' = c\<lparr>eventBuffer := rest, yielded := yielded c @ [event]\<rparr>"
proof (cases a)
  case (NewPageResolved i)
  with assms NewPage show ?thesis
    by (auto simp: workerAt_def split: if_splits worker.splits)
next
  case (AuditPageResolved i out)
  with assms Audit show ?thesis
    by (auto simp: workerAt_def split: if_splits worker.splits)
next
  case (MkdirResolved i)
  with assms Mkdir show ?thesis
    by (auto simp: workerAt_def split: if_splits worker.splits saveStage.splits)
next
  case (WriteFileResolved i)
  with assms WriteFile show ?thesis
    by (auto simp: workerAt_def split: if_splits worker.splits saveStage.splits)
next
  case (RenameSettled i)
  with assms RenameOk RenameFail show ?thesis
    by (auto simp: workerAt_def split: if_splits worker.splits saveStage.splits option.splits)
next
  case (CloseResolved i)
  with assms CloseNext CloseExit CloseRejected show ?thesis
    by (auto simp: workerAt_def whileHead_def split: if_splits worker.splits list.splits)
next
  case (WorkersDone now)
  with assms Done show ?thesis
    by (auto split: if_splits)
next
  case Yield
  with assms show ?thesis
    using that(11) by (auto split: list.splits)
qed

lemma startUrls_append [simp]: "startUrls (xs @ ys) = startUrls xs @ startUrls ys"
  by (simp add: startUrls_def)

lemma terminalUrls_append [simp]: "terminalUrls (xs @ ys) = terminalUrls xs @ terminalUrls ys"
  by (simp add: terminalUrls_def)

lemma startUrls_simps [simp]:
  "startUrls [] = []" "startUrls (e # es) = startUrl e @ startUrls es"
  by (simp_all add: startUrls_def)

lemma terminalUrls_simps [simp]:
  "terminalUrls [] = []" "terminalUrls (e # es) = terminalUrl e @ terminalUrls es"
  by (simp_all add: terminalUrls_def)

lemma terminalUrl_terminalEvent [simp]: "terminalUrl (terminalEvent u r) = [u]"
  by (simp add: terminalEvent_def split: option.splits)

lemma startUrl_terminalEvent [simp]: "startUrl (terminalEvent u r) = []"
  by (simp add: terminalEvent_def split: option.splits)

lemma isAuditComplete_terminalEvent [simp]: "\<not> isAuditComplete (terminalEvent u r)"
  by (simp add: terminalEvent_def split: option.splits)

lemma mset_concat_update:
  "i < length ws \<Longrightarrow>
     mset (concat (map f (ws[i := w]))) + mset (f (ws ! i)) = mset (concat (map f ws)) + mset (f w)"
proof (induction ws arbitrary: i)
  case Nil
  then show ?case by simp
next
  case (Cons x ws)
  show ?case
  proof (cases i)
    case 0
    then show ?thesis by simp
  next
    case (Suc j)
    with Cons.prems have "j < length ws" by simp
    from Cons.IH [OF this] show ?thesis by (simp add: Suc ac_simps)
  qed
qed

lemma pushed_simps [simp]:
  "pushed (pushEvent e c) = pushed c @ [e]"
  "pushed (setWorker i w c) = pushed c"
  "pushed (c\<lparr>state := st\<rparr>) = pushed c"
  "pushed (c\<lparr>urlQueue := q\<rparr>) = pushed c"
  "pushed (c\<lparr>savedStates := sv\<rparr>) = pushed c"
  "pushed (c\<lparr>tmpFile := t\<rparr>) = pushed c"
  "pushed (c\<lparr>allDone := b\<rparr>) = pushed c"
  "pushed (c\<lparr>workers := ws\<rparr>) = pushed c"
  by (simp_all add: pushed_def pushEvent_def setWorker_def)

lemma pushed_yield:
  "eventBuffer c = e # rest \<Longrightarrow>
     pushed (c\<lparr>eventBuffer := rest, yielded := yielded c @ [e]\<rparr>) = pushed c"
  by (simp add: pushed_def)

lemma field_simps_pool [simp]:
  "urlQueue (pushEvent e c) = urlQueue c"
  "urlQueue (setWorker i w c) = urlQueue c"
  "state (pushEvent e c) = state c"
  "state (setWorker i w c) = state c"
  "workers (pushEvent e c) = workers c"
  "workers (setWorker i w c) = (workers c)[i := w]"
  "allDone (pushEvent e c) = allDone c"
  "allDone (setWorker i w c) = allDone c"
  "savedStates (pushEvent e c) = savedStates c"
  "savedStates (setWorker i w c) = savedStates c"
  "tmpFile (pushEvent e c) = tmpFile c"
  "tmpFile (setWorker i w c) = tmpFile c"
  "inputUrls (pushEvent e c) = inputUrls c"
  "inputUrls (setWorker i w c) = inputUrls c"
  "eventBuffer (pushEvent e c) = eventBuffer c @ [e]"
  "eventBuffer (setWorker i w c) = eventBuffer c"
  by (simp_all add: pushEvent_def setWorker_def)

lemma recordResult_simps [simp]:
  "completedPages (recordResult u r st) = completedPages st @ [u]"
  "pendingPages (recordResult u r st) = filter (\<lambda>x. x \<noteq> u) (pendingPages st)"
  "results (recordResult u r st) = setProperty u r (results st)"
  "ss_startedAt (recordResult u r st) = ss_startedAt st"
  by (simp_all add: recordResult_def)

lemma keys_setProperty:
  "fst ` set (setProperty k v props)
     = (if k = ''__proto__'' then fst ` set props else insert k (fst ` set props))"
  by (simp add: setProperty_def dom_update)


lemma inv_events_step:
  assumes "inv_events urls c" and "step a c = Some c'"
  shows "inv_events urls c'"
  using assms(2)
proof (cases rule: stepE)
  case (NewPage i u)
  with assms(1) mset_concat_update [of i "workers c" inFlight "AwaitAuditPage u"]
  show ?thesis by (simp add: inv_events_def)
next
  case (Audit i out u)
  have m: "mset (concat (map inFlight (workers c)))
             = add_mset u (mset (concat (map inFlight
                 ((workers c)[i := AwaitSave u (auditPage u out) AwaitMkdir]))))"
    using mset_concat_update [of i "workers c" inFlight "AwaitSave u (auditPage u out) AwaitMkdir"]
      Audit by simp
  from assms(1) Audit show ?thesis by (simp add: inv_events_def m)
next
  case (Mkdir i u r)
  with assms(1) mset_concat_update [of i "workers c" inFlight "AwaitSave u r (AwaitWriteFile (state c))"]
  show ?thesis by (simp add: inv_events_def)
next
  case (WriteFile i u r snap)
  with assms(1) mset_concat_update [of i "workers c" inFlight "AwaitSave u r AwaitRename"]
  show ?thesis by (simp add: inv_events_def)
next
  case (RenameOk i u r content)
  with assms(1) mset_concat_update [of i "workers c" inFlight "AwaitClose u"]
  show ?thesis by (simp add: inv_events_def)
next
  case (RenameFail i u r)
  with assms(1) mset_concat_update [of i "workers c" inFlight "AwaitCloseRejected u"]
  show ?thesis by (simp add: inv_events_def)
next
  case (CloseNext i u v rest)
  with assms(1) mset_concat_update [of i "workers c" inFlight "AwaitNewPage v"]
  show ?thesis by (simp add: inv_events_def)
next
  case (CloseExit i u)
  with assms(1) mset_concat_update [of i "workers c" inFlight Exited]
  show ?thesis by (simp add: inv_events_def)
next
  case (CloseRejected i u)
  with assms(1) mset_concat_update [of i "workers c" inFlight Rejected]
  show ?thesis by (simp add: inv_events_def)
next
  case (Done now)
  with assms(1) show ?thesis by (simp add: inv_events_def)
next
  case (Yield event rest)
  with assms(1) show ?thesis by (simp add: inv_events_def pushed_yield)
qed

lemma inv_events_startWorker:
  assumes "inv_events urls c"
  shows "inv_events urls (startWorker c)"
  using assms
  by (cases "urlQueue c") (simp_all add: inv_events_def startWorker_def whileHead_def)

lemma inv_session_step:
  assumes "inv_session urls c" and "step a c = Some c'"
  shows "inv_session urls c'"
  using assms(2)
proof (cases rule: stepE)
  case (Audit i out u)
  have "filter (\<lambda>x. x \<noteq> u) (filter (\<lambda>x. x \<notin> set (completedPages (state c))) urls)
          = filter (\<lambda>x. x \<noteq> u \<and> x \<notin> set (completedPages (state c))) urls"
    by (simp add: conj_commute)
  with assms(1) Audit show ?thesis
    by (auto simp: inv_session_def keys_setProperty)
qed (use assms(1) in \<open>simp_all add: inv_session_def\<close>)

lemma inv_session_startWorker:
  "inv_session urls c \<Longrightarrow> inv_session urls (startWorker c)"
  by (cases "urlQueue c") (simp_all add: inv_session_def startWorker_def whileHead_def)

lemma list_ex_update_Exited:
  "i < length ws \<Longrightarrow> w \<noteq> Exited \<Longrightarrow> ws ! i \<noteq> Exited \<Longrightarrow>
     list_ex (\<lambda>w. w = Exited) (ws[i := w]) = list_ex (\<lambda>w. w = Exited) ws"
  by (auto simp: list_ex_iff set_conv_nth nth_list_update) (metis)+

lemma inv_exit_step:
  assumes "inv_exit c" and "step a c = Some c'"
  shows "inv_exit c'"
  using assms(2)
proof (cases rule: stepE)
  case (CloseNext i u v rest)
  have "\<not> list_ex (\<lambda>w. w = Exited) (workers c)"
    using assms(1) CloseNext by (auto simp: inv_exit_def)
  then have "\<not> list_ex (\<lambda>w. w = Exited) ((workers c)[i := AwaitNewPage v])"
    using CloseNext by (simp add: list_ex_update_Exited)
  with CloseNext show ?thesis by (simp add: inv_exit_def)
qed (use assms(1) in \<open>auto simp: inv_exit_def list_ex_update_Exited\<close>)

lemma inv_exit_startWorker: "inv_exit c \<Longrightarrow> inv_exit (startWorker c)"
  by (cases "urlQueue c") (auto simp: inv_exit_def startWorker_def whileHead_def)

lemma not_all_Exited:
  "i < length ws \<Longrightarrow> ws ! i \<noteq> Exited \<Longrightarrow> \<not> list_all (\<lambda>w. w = Exited) ws"
  by (auto simp: list_all_iff)

lemma list_ex_isAuditComplete_append [simp]:
  "list_ex isAuditComplete (xs @ ys) = (list_ex isAuditComplete xs \<or> list_ex isAuditComplete ys)"
  by (auto simp: list_ex_iff)

lemma worker_step_not_allDone:
  assumes "inv_done c" and "i < length (workers c)" and "workers c ! i \<noteq> Exited"
  shows "\<not> allDone c"
  using assms not_all_Exited [of i "workers c"] by (auto simp: inv_done_def)

lemma inv_done_worker:
  assumes "inv_done c" and "\<not> allDone c"
    and "allDone c' = allDone c" and "pushed c' = pushed c \<or> (\<exists>e. pushed c' = pushed c @ [e]
          \<and> \<not> isAuditComplete e)"
  shows "inv_done c'"
  using assms by (auto simp: inv_done_def)

lemma inv_done_step:
  assumes "inv_done c" and "step a c = Some c'"
  shows "inv_done c'"
  using assms(2)
proof (cases rule: stepE)
  case (NewPage i u)
  then have n: "\<not> allDone c" using worker_step_not_allDone [OF assms(1), of i] by simp
  show ?thesis
  proof (rule inv_done_worker [OF assms(1) n])
    show "allDone c' = allDone c" using NewPage by simp
    show "pushed c' = pushed c \<or> (\<exists>e. pushed c' = pushed c @ [e] \<and> \<not> isAuditComplete e)"
      using NewPage by simp
  qed
next
  case (Audit i out u)
  then have n: "\<not> allDone c" using worker_step_not_allDone [OF assms(1), of i] by simp
  show ?thesis
  proof (rule inv_done_worker [OF assms(1) n])
    show "allDone c' = allDone c" using Audit by simp
    show "pushed c' = pushed c \<or> (\<exists>e. pushed c' = pushed c @ [e] \<and> \<not> isAuditComplete e)"
      using Audit by simp
  qed
next
  case (Mkdir i u r)
  then have n: "\<not> allDone c" using worker_step_not_allDone [OF assms(1), of i] by simp
  show ?thesis
  proof (rule inv_done_worker [OF assms(1) n])
    show "allDone c' = allDone c" using Mkdir by simp
    show "pushed c' = pushed c \<or> (\<exists>e. pushed c' = pushed c @ [e] \<and> \<not> isAuditComplete e)"
      using Mkdir by simp
  qed
next
  case (WriteFile i u r snap)
  then have n: "\<not> allDone c" using worker_step_not_allDone [OF assms(1), of i] by simp
  show ?thesis
  proof (rule inv_done_worker [OF assms(1) n])
    show "allDone c' = allDone c" using WriteFile by simp
    show "pushed c' = pushed c \<or> (\<exists>e. pushed c' = pushed c @ [e] \<and> \<not> isAuditComplete e)"
      using WriteFile by simp
  qed
next
  case (RenameOk i u r content)
  then have n: "\<not> allDone c" using worker_step_not_allDone [OF assms(1), of i] by simp
  show ?thesis
  proof (rule inv_done_worker [OF assms(1) n])
    show "allDone c' = allDone c" using RenameOk by simp
    show "pushed c' = pushed c \<or> (\<exists>e. pushed c' = pushed c @ [e] \<and> \<not> isAuditComplete e)"
      using RenameOk by simp
  qed
next
  case (RenameFail i u r)
  then have n: "\<not> allDone c" using worker_step_not_allDone [OF assms(1), of i] by simp
  show ?thesis
  proof (rule inv_done_worker [OF assms(1) n])
    show "allDone c' = allDone c" using RenameFail by simp
    show "pushed c' = pushed c \<or> (\<exists>e. pushed c' = pushed c @ [e] \<and> \<not> isAuditComplete e)"
      using RenameFail by simp
  qed
next
  case (CloseNext i u v rest)
  then have n: "\<not> allDone c" using worker_step_not_allDone [OF assms(1), of i] by simp
  show ?thesis
  proof (rule inv_done_worker [OF assms(1) n])
    show "allDone c' = allDone c" using CloseNext by simp
    show "pushed c' = pushed c \<or> (\<exists>e. pushed c' = pushed c @ [e] \<and> \<not> isAuditComplete e)"
      using CloseNext by simp
  qed
next
  case (CloseExit i u)
  then have n: "\<not> allDone c" using worker_step_not_allDone [OF assms(1), of i] by simp
  show ?thesis
  proof (rule inv_done_worker [OF assms(1) n])
    show "allDone c' = allDone c" using CloseExit by simp
    show "pushed c' = pushed c \<or> (\<exists>e. pushed c' = pushed c @ [e] \<and> \<not> isAuditComplete e)"
      using CloseExit by simp
  qed
next
  case (CloseRejected i u)
  then have n: "\<not> allDone c" using worker_step_not_allDone [OF assms(1), of i] by simp
  show ?thesis
  proof (rule inv_done_worker [OF assms(1) n])
    show "allDone c' = allDone c" using CloseRejected by simp
    show "pushed c' = pushed c \<or> (\<exists>e. pushed c' = pushed c @ [e] \<and> \<not> isAuditComplete e)"
      using CloseRejected by simp
  qed
next
  case (Done now)
  have 1: "allDone c'" "workers c' = workers c"
    "pushed c' = pushed c @ [AuditComplete (summaryOf c' now)]"
    using Done by (simp_all add: summaryOf_def)
  have 2: "\<not> list_ex isAuditComplete (pushed c)"
    using assms(1) Done by (simp add: inv_done_def)
  show ?thesis unfolding inv_done_def using 1 2 Done(3) by auto
next
  case (Yield event rest)
  have s: "summaryOf c' = summaryOf c" using Yield by (simp add: summaryOf_def fun_eq_iff)
  have p: "pushed c' = pushed c" "allDone c' = allDone c" "workers c' = workers c"
    using Yield by (simp_all add: pushed_yield)
  from assms(1) show ?thesis
    unfolding inv_done_def s p .
qed

lemma inv_done_startWorker: "inv_done c \<Longrightarrow> \<not> allDone c \<Longrightarrow> inv_done (startWorker c)"
  by (cases "urlQueue c") (simp_all add: inv_done_def startWorker_def whileHead_def)

lemma allDone_startWorker: "allDone (startWorker c) = allDone c"
  by (cases "urlQueue c") (simp_all add: startWorker_def whileHead_def)

lemma length_workers_step:
  assumes "step a c = Some c'"
  shows "length (workers c') = length (workers c)"
  using assms by (cases rule: stepE) simp_all

lemma length_workers_startWorker: "length (workers (startWorker c)) = Suc (length (workers c))"
  by (cases "urlQueue c") (simp_all add: startWorker_def whileHead_def)

lemma length_filter_update:
  "i < length ws \<Longrightarrow>
     length (filter P (ws[i := w])) + (if P (ws ! i) then 1 else 0)
       = length (filter P ws) + (if P w then 1 else 0)"
proof (induction ws arbitrary: i)
  case Nil
  then show ?case by simp
next
  case (Cons x ws)
  show ?case
  proof (cases i)
    case 0
    then show ?thesis by simp
  next
    case (Suc j)
    with Cons.prems have "j < length ws" by simp
    from Cons.IH [OF this] show ?thesis by (simp add: Suc)
  qed
qed

lemma savingOk_mono:
  assumes "savingOk c w"
    and "set (pushed c) \<subseteq> set (pushed c')"
    and "set (completedPages (state c)) \<subseteq> set (completedPages (state c'))"
    and "fst ` set (results (state c)) \<subseteq> fst ` set (results (state c'))"
    and "set (pendingPages (state c')) \<subseteq> set (pendingPages (state c))"
  shows "savingOk c' w"
  using assms by (cases w) (auto simp: goodSnapshot_def split: saveStage.splits)

lemma list_all_update:
  "list_all P ws \<Longrightarrow> P w \<Longrightarrow> list_all P (ws[i := w])"
  by (auto simp: list_all_iff dest: set_update_subset_insert [THEN subsetD])

lemma list_all_nth: "list_all P ws \<Longrightarrow> i < length ws \<Longrightarrow> P (ws ! i)"
  by (simp add: list_all_iff)

text \<open>
  Replacing worker \<open>i\<close> changes the numbers of saving and of failed workers by what the old
  and the new worker count for.
\<close>

lemma count_update:
  assumes "i < length ws"
  shows "length (filter saving (ws[i := w])) + length (filter failed (ws[i := w]))
           + ((if saving (ws ! i) then 1 else 0) + (if failed (ws ! i) then 1 else 0))
         = length (filter saving ws) + length (filter failed ws)
           + ((if saving w then 1 else 0) + (if failed w then 1 else 0))"
  using length_filter_update [OF assms, of saving w] length_filter_update [OF assms, of failed w]
  by simp

lemma inv_saves_step:
  assumes "inv_saves c" and "step a c = Some c'"
  shows "inv_saves c'"
proof -
  have mono: "list_all (savingOk c') (workers c)"
    if "set (pushed c) \<subseteq> set (pushed c')"
      and "set (completedPages (state c)) \<subseteq> set (completedPages (state c'))"
      and "fst ` set (results (state c)) \<subseteq> fst ` set (results (state c'))"
      and "set (pendingPages (state c')) \<subseteq> set (pendingPages (state c))"
    using assms(1) that savingOk_mono [of c _ c']
    by (auto simp: inv_saves_def list_all_iff)
  from assms(2) show ?thesis
  proof (cases rule: stepE)
    case (NewPage i u)
    have "list_all (savingOk c') (workers c)" using NewPage by (intro mono) simp_all
    then have "list_all (savingOk c') (workers c')"
      using NewPage by (simp add: list_all_update)
    moreover have "length (filter saving (workers c')) + length (filter failed (workers c'))
        = length (filter saving (workers c)) + length (filter failed (workers c))"
      using count_update [of i "workers c" "AwaitAuditPage u"] NewPage by simp
    ultimately show ?thesis using assms(1) NewPage by (simp add: inv_saves_def)
  next
    case (Audit i out u)
    let ?r = "auditPage u out"
    have "list_all (savingOk c') (workers c)"
      using Audit by (intro mono) (auto simp: keys_setProperty)
    moreover have "savingOk c' (AwaitSave u ?r AwaitMkdir)"
      using Audit by (simp add: goodSnapshot_def keys_setProperty)
    ultimately have "list_all (savingOk c') (workers c')"
      using Audit by (simp add: list_all_update)
    moreover have "length (filter saving (workers c')) + length (filter failed (workers c'))
        = Suc (length (filter saving (workers c)) + length (filter failed (workers c)))"
      using count_update [of i "workers c" "AwaitSave u ?r AwaitMkdir"] Audit by simp
    ultimately show ?thesis using assms(1) Audit by (simp add: inv_saves_def)
  next
    case (Mkdir i u r)
    have a: "list_all (savingOk c') (workers c)" using Mkdir by (intro mono) simp_all
    from list_all_nth [OF a, of i] Mkdir
    have "savingOk c' (AwaitSave u r (AwaitWriteFile (state c)))" by simp
    with a have "list_all (savingOk c') (workers c')"
      using Mkdir by (simp add: list_all_update)
    moreover have "length (filter saving (workers c')) + length (filter failed (workers c'))
        = length (filter saving (workers c)) + length (filter failed (workers c))"
      using count_update [of i "workers c" "AwaitSave u r (AwaitWriteFile (state c))"]
        Mkdir by simp
    ultimately show ?thesis using assms(1) Mkdir by (simp add: inv_saves_def)
  next
    case (WriteFile i u r snap)
    have a: "list_all (savingOk c') (workers c)" using WriteFile by (intro mono) simp_all
    from list_all_nth [OF a, of i] WriteFile
    have "savingOk c' (AwaitSave u r AwaitRename)" by simp
    with a have "list_all (savingOk c') (workers c')"
      using WriteFile by (simp add: list_all_update)
    moreover have "length (filter saving (workers c')) + length (filter failed (workers c'))
        = length (filter saving (workers c)) + length (filter failed (workers c))"
      using count_update [of i "workers c" "AwaitSave u r AwaitRename"] WriteFile by simp
    ultimately show ?thesis using assms(1) WriteFile by (simp add: inv_saves_def)
  next
    case (RenameOk i u r content)
    have a: "list_all (savingOk c') (workers c)" using RenameOk by (intro mono) simp_all
    then have "list_all (savingOk c') (workers c')"
      using RenameOk by (simp add: list_all_update)
    moreover have "Suc (length (filter saving (workers c')) + length (filter failed (workers c')))
        = length (filter saving (workers c)) + length (filter failed (workers c))"
      using count_update [of i "workers c" "AwaitClose u"] RenameOk by simp
    ultimately show ?thesis using assms(1) RenameOk by (simp add: inv_saves_def)
  next
    case (RenameFail i u r)
    have a: "list_all (savingOk c') (workers c)" using RenameFail by (intro mono) simp_all
    then have "list_all (savingOk c') (workers c')"
      using RenameFail by (simp add: list_all_update)
    moreover have "length (filter saving (workers c')) + length (filter failed (workers c'))
        = length (filter saving (workers c)) + length (filter failed (workers c))"
      using count_update [of i "workers c" "AwaitCloseRejected u"] RenameFail by simp
    ultimately show ?thesis using assms(1) RenameFail by (simp add: inv_saves_def)
  next
    case (CloseNext i u v rest)
    have a: "list_all (savingOk c') (workers c)" using CloseNext by (intro mono) auto
    then have "list_all (savingOk c') (workers c')"
      using CloseNext by (simp add: list_all_update)
    moreover have "length (filter saving (workers c')) + length (filter failed (workers c'))
        = length (filter saving (workers c)) + length (filter failed (workers c))"
      using count_update [of i "workers c" "AwaitNewPage v"] CloseNext by simp
    ultimately show ?thesis using assms(1) CloseNext by (simp add: inv_saves_def)
  next
    case (CloseExit i u)
    have a: "list_all (savingOk c') (workers c)" using CloseExit by (intro mono) simp_all
    then have "list_all (savingOk c') (workers c')"
      using CloseExit by (simp add: list_all_update)
    moreover have "length (filter saving (workers c')) + length (filter failed (workers c'))
        = length (filter saving (workers c)) + length (filter failed (workers c))"
      using count_update [of i "workers c" Exited] CloseExit by simp
    ultimately show ?thesis using assms(1) CloseExit by (simp add: inv_saves_def)
  next
    case (CloseRejected i u)
    have a: "list_all (savingOk c') (workers c)" using CloseRejected by (intro mono) simp_all
    then have "list_all (savingOk c') (workers c')"
      using CloseRejected by (simp add: list_all_update)
    moreover have "length (filter saving (workers c')) + length (filter failed (workers c'))
        = length (filter saving (workers c)) + length (filter failed (workers c))"
      using count_update [of i "workers c" Rejected] CloseRejected by simp
    ultimately show ?thesis using assms(1) CloseRejected by (simp add: inv_saves_def)
  next
    case (Done now)
    have a: "list_all (savingOk c') (workers c)" using Done by (intro mono) auto
    with assms(1) Done show ?thesis by (simp add: inv_saves_def)
  next
    case (Yield event rest)
    have a: "list_all (savingOk c') (workers c)"
      using Yield by (intro mono) (simp_all add: pushed_yield)
    with assms(1) Yield show ?thesis by (simp add: inv_saves_def)
  qed
qed

lemma inv_saves_startWorker:
  assumes "inv_saves c"
  shows "inv_saves (startWorker c)"
proof -
  have "list_all (savingOk (startWorker c)) (workers c)"
    using assms savingOk_mono [of c _ "startWorker c"]
    by (cases "urlQueue c")
       (auto simp: inv_saves_def list_all_iff startWorker_def whileHead_def)
  with assms show ?thesis
    by (cases "urlQueue c") (simp_all add: inv_saves_def startWorker_def whileHead_def)
qed

text \<open>The snapshots after a step are those before it and, at most, the present session.\<close>

lemma held_update:
  "set (concat (map held (ws[i := w]))) \<subseteq> set (held w) \<union> set (concat (map held ws))"
  using set_update_subset_insert [of ws i w] by auto

lemma held_nth: "i < length ws \<Longrightarrow> set (held (ws ! i)) \<subseteq> set (concat (map held ws))"
  by (auto intro!: bexI [of _ "ws ! i"])

lemma snapshots_step:
  assumes "step a c = Some c'"
  shows "set (snapshots c') \<subseteq> insert (state c) (set (snapshots c))"
  using assms
proof (cases rule: stepE)
  case (NewPage i u)
  with held_update [of "workers c" i "AwaitAuditPage u"] show ?thesis
    by (auto simp: snapshots_def)
next
  case (Audit i out u)
  with held_update [of "workers c" i "AwaitSave u (auditPage u out) AwaitMkdir"] show ?thesis
    by (auto simp: snapshots_def pushEvent_def)
next
  case (Mkdir i u r)
  with held_update [of "workers c" i "AwaitSave u r (AwaitWriteFile (state c))"] show ?thesis
    by (auto simp: snapshots_def)
next
  case (WriteFile i u r snap)
  with held_update [of "workers c" i "AwaitSave u r AwaitRename"] held_nth [of i "workers c"]
  show ?thesis by (auto simp: snapshots_def)
next
  case (RenameOk i u r content)
  with held_update [of "workers c" i "AwaitClose u"] show ?thesis
    by (auto simp: snapshots_def)
next
  case (RenameFail i u r)
  with held_update [of "workers c" i "AwaitCloseRejected u"] show ?thesis
    by (auto simp: snapshots_def)
next
  case (CloseNext i u v rest)
  with held_update [of "workers c" i "AwaitNewPage v"] show ?thesis
    by (auto simp: snapshots_def pushEvent_def)
next
  case (CloseExit i u)
  with held_update [of "workers c" i Exited] show ?thesis
    by (auto simp: snapshots_def)
next
  case (CloseRejected i u)
  with held_update [of "workers c" i Rejected] show ?thesis
    by (auto simp: snapshots_def)
next
  case (Done now)
  then show ?thesis by (auto simp: snapshots_def pushEvent_def)
next
  case (Yield event rest)
  then show ?thesis by (auto simp: snapshots_def)
qed

lemma completedPages_step:
  assumes "step a c = Some c'"
  shows "prefix (completedPages (state c)) (completedPages (state c'))"
  using assms by (cases rule: stepE) simp_all

lemma inv_snapshots_step:
  assumes "inv_snapshots c" and "step a c = Some c'"
  shows "inv_snapshots c'"
proof -
  note p = completedPages_step [OF assms(2)]
  have "prefix (completedPages snap) (completedPages (state c'))" if "snap \<in> set (snapshots c')"
    for snap
  proof -
    from that snapshots_step [OF assms(2)]
    have "snap = state c \<or> snap \<in> set (snapshots c)" by auto
    then show ?thesis
    proof
      assume "snap = state c"
      with p show ?thesis by simp
    next
      assume "snap \<in> set (snapshots c)"
      with assms(1) have "prefix (completedPages snap) (completedPages (state c))"
        by (simp add: inv_snapshots_def list_all_iff)
      from prefix_order.trans [OF this p] show ?thesis .
    qed
  qed
  then show ?thesis by (simp add: inv_snapshots_def list_all_iff)
qed

lemma inv_snapshots_startWorker: "inv_snapshots c \<Longrightarrow> inv_snapshots (startWorker c)"
  by (cases "urlQueue c")
     (simp_all add: inv_snapshots_def snapshots_def startWorker_def whileHead_def pushEvent_def)

lemma poolInv_step: "poolInv urls c \<Longrightarrow> step a c = Some c' \<Longrightarrow> poolInv urls c'"
  unfolding poolInv_def
  using inv_events_step inv_session_step inv_exit_step inv_done_step inv_saves_step
    inv_snapshots_step by blast

lemma poolInv_exec: "poolInv urls c \<Longrightarrow> exec acts c = Some c' \<Longrightarrow> poolInv urls c'"
proof (induction acts arbitrary: c)
  case Nil
  then show ?case by simp
next
  case (Cons a acts)
  then show ?case by (auto split: option.splits dest: poolInv_step)
qed

lemma length_workers_exec: "exec acts c = Some c' \<Longrightarrow> length (workers c') = length (workers c)"
proof (induction acts arbitrary: c)
  case Nil
  then show ?case by simp
next
  case (Cons a acts)
  then show ?case by (auto split: option.splits dest: length_workers_step)
qed

lemma poolInv_startWorker:
  "poolInv urls c \<and> \<not> allDone c \<Longrightarrow> poolInv urls (startWorker c) \<and> \<not> allDone (startWorker c)"
  unfolding poolInv_def
  using inv_events_startWorker inv_session_startWorker inv_exit_startWorker
    inv_done_startWorker inv_saves_startWorker inv_snapshots_startWorker allDone_startWorker
  by blast

lemma poolInv_funpow:
  "poolInv urls c \<and> \<not> allDone c \<Longrightarrow>
     poolInv urls ((startWorker ^^ n) c) \<and> \<not> allDone ((startWorker ^^ n) c)"
  by (induction n) (simp_all add: poolInv_startWorker allDone_startWorker)

lemma length_workers_funpow:
  "length (workers ((startWorker ^^ n) c)) = n + length (workers c)"
  by (induction n) (simp_all add: length_workers_startWorker)

lemma poolInv_startPool: "poolInv urls (startPool urls maxConcurrent sid now)"
proof -
  let ?c0 = "\<lparr>inputUrls = urls, urlQueue = urls,
        state = \<lparr>sessionId = sid, ss_startedAt = now, ss_totalPages = length urls,
                 completedPages = [], pendingPages = urls, results = []\<rparr>,
        eventBuffer = [], yielded = [], workers = [], allDone = False, tmpFile = None,
        savedStates = []\<rparr>"
  have "poolInv urls ?c0 \<and> \<not> allDone ?c0"
    by (simp add: poolInv_def inv_events_def inv_session_def inv_exit_def inv_done_def
        inv_saves_def inv_snapshots_def snapshots_def pushed_def)
  from poolInv_funpow [OF this] show ?thesis by (simp add: startPool_def)
qed

lemma length_workers_startPool:
  "length (workers (startPool urls maxConcurrent sid now)) = createContexts maxConcurrent 0"
  by (simp add: startPool_def length_workers_funpow)

text \<open>What the invariants give for a run that has ended.\<close>

lemma finished_stream:
  assumes inv: "poolInv urls c" and fin: "finished c" and n: "0 < length (workers c)"
  shows "startUrls (yielded c) = urls"
    and "mset (terminalUrls (yielded c)) = mset urls"
    and "\<exists>xs now. yielded c = xs @ [AuditComplete (summaryOf c now)]
           \<and> \<not> list_ex isAuditComplete xs"
    and "completedPages (state c) = terminalUrls (yielded c)"
    and "length (savedStates c) = length urls"
proof -
  from fin have ad: "allDone c" and eb: "eventBuffer c = []" by (simp_all add: finished_def)
  then have p: "pushed c = yielded c" by (simp add: pushed_def)
  from inv ad have ex: "list_all (\<lambda>w. w = Exited) (workers c)"
    and ac: "\<exists>xs now. pushed c = xs @ [AuditComplete (summaryOf c now)]
               \<and> \<not> list_ex isAuditComplete xs"
    by (simp_all add: poolInv_def inv_done_def)
  from ex n have "list_ex (\<lambda>w. w = Exited) (workers c)"
    by (cases "workers c") simp_all
  with inv have q: "urlQueue c = []" by (simp add: poolInv_def inv_exit_def)
  from inv q show s: "startUrls (yielded c) = urls"
    by (simp add: poolInv_def inv_events_def p)
  from ex have fl: "concat (map inFlight (workers c)) = []"
    by (induction "workers c") (auto simp: list_all_iff)
  from inv show t: "completedPages (state c) = terminalUrls (yielded c)"
    by (simp add: poolInv_def inv_events_def p)
  from inv fl have "mset (completedPages (state c)) = mset (startUrls (pushed c))"
    by (simp add: poolInv_def inv_events_def)
  then show m: "mset (terminalUrls (yielded c)) = mset urls"
    using s t p by simp
  from ac show "\<exists>xs now. yielded c = xs @ [AuditComplete (summaryOf c now)]
           \<and> \<not> list_ex isAuditComplete xs"
    by (simp add: p)
  from ex have "filter saving (workers c) = []" "filter failed (workers c) = []"
    by (auto simp: list_all_iff filter_empty_conv)
  with inv have "length (savedStates c) = length (completedPages (state c))"
    by (simp add: poolInv_def inv_saves_def)
  also have "\<dots> = length urls" using m t by (metis size_mset)
  finally show "length (savedStates c) = length urls" .
qed

subsection \<open>Every run ends\<close>

lemma sum_list_map_update:
  "i < length ws \<Longrightarrow>
     sum_list (map f (ws[i := w])) + f (ws ! i) = sum_list (map f ws) + (f w :: nat)"
proof (induction ws arbitrary: i)
  case Nil
  then show ?case by simp
next
  case (Cons x ws)
  show ?case
  proof (cases i)
    case 0
    then show ?thesis by simp
  next
    case (Suc j)
    with Cons.prems have "j < length ws" by simp
    from Cons.IH [OF this] show ?thesis by (simp add: Suc)
  qed
qed

lemma step_stepsLeft:
  assumes "step a c = Some c'"
  shows "stepsLeft c' < stepsLeft c"
  using assms
proof (cases rule: stepE)
  case (NewPage i u)
  with sum_list_map_update [of i "workers c" weight "AwaitAuditPage u"]
  show ?thesis by (simp add: stepsLeft_def)
next
  case (Audit i out u)
  with sum_list_map_update [of i "workers c" weight "AwaitSave u (auditPage u out) AwaitMkdir"]
  show ?thesis by (simp add: stepsLeft_def)
next
  case (Mkdir i u r)
  with sum_list_map_update [of i "workers c" weight "AwaitSave u r (AwaitWriteFile (state c))"]
  show ?thesis by (simp add: stepsLeft_def)
next
  case (WriteFile i u r snap)
  with sum_list_map_update [of i "workers c" weight "AwaitSave u r AwaitRename"]
  show ?thesis by (simp add: stepsLeft_def setWorker_def)
next
  case (RenameOk i u r content)
  with sum_list_map_update [of i "workers c" weight "AwaitClose u"]
  show ?thesis by (simp add: stepsLeft_def setWorker_def)
next
  case (RenameFail i u r)
  with sum_list_map_update [of i "workers c" weight "AwaitCloseRejected u"]
  show ?thesis by (simp add: stepsLeft_def)
next
  case (CloseNext i u v rest)
  with sum_list_map_update [of i "workers c" weight "AwaitNewPage v"]
  show ?thesis by (simp add: stepsLeft_def)
next
  case (CloseExit i u)
  with sum_list_map_update [of i "workers c" weight Exited]
  show ?thesis by (simp add: stepsLeft_def)
next
  case (CloseRejected i u)
  with sum_list_map_update [of i "workers c" weight Rejected]
  show ?thesis by (simp add: stepsLeft_def)
next
  case (Done now)
  then show ?thesis by (simp add: stepsLeft_def)
next
  case (Yield event rest)
  then show ?thesis by (simp add: stepsLeft_def)
qed

lemma exec_stepsLeft: "exec acts c = Some c' \<Longrightarrow> length acts + stepsLeft c' \<le> stepsLeft c"
proof (induction acts arbitrary: c)
  case Nil
  then show ?case by simp
next
  case (Cons a acts)
  then obtain c1 where 1: "step a c = Some c1" and 2: "exec acts c1 = Some c'"
    by (auto split: option.splits)
  from Cons.IH [OF 2] step_stepsLeft [OF 1] show ?case by simp
qed

text \<open>A worker that has neither returned nor been rejected can always take its next step.\<close>

lemma worker_enabled:
  assumes "i < length (workers c)" and "workers c ! i \<noteq> Exited" and "workers c ! i \<noteq> Rejected"
  shows "\<exists>a c'. step a c = Some c'"
proof (cases "workers c ! i")
  case (AwaitNewPage u)
  with assms have "step (NewPageResolved i) c \<noteq> None" by (simp add: workerAt_def)
  then show ?thesis by blast
next
  case (AwaitAuditPage u)
  with assms have "step (AuditPageResolved i (Failed [] [])) c \<noteq> None"
    by (simp add: workerAt_def)
  then show ?thesis by blast
next
  case (AwaitSave u r stage)
  show ?thesis
  proof (cases stage)
    case AwaitMkdir
    with AwaitSave assms have "step (MkdirResolved i) c \<noteq> None" by (simp add: workerAt_def)
    then show ?thesis by blast
  next
    case (AwaitWriteFile snap)
    with AwaitSave assms have "step (WriteFileResolved i) c \<noteq> None"
      by (simp add: workerAt_def)
    then show ?thesis by blast
  next
    case AwaitRename
    with AwaitSave assms have "step (RenameSettled i) c \<noteq> None"
      by (simp add: workerAt_def split: option.splits)
    then show ?thesis by blast
  qed
next
  case (AwaitClose u)
  with assms have "step (CloseResolved i) c \<noteq> None"
    by (simp add: workerAt_def split: prod.splits)
  then show ?thesis by blast
next
  case (AwaitCloseRejected u)
  with assms have "step (CloseResolved i) c \<noteq> None" by (simp add: workerAt_def)
  then show ?thesis by blast
next
  case Exited
  with assms show ?thesis by simp
next
  case Rejected
  with assms show ?thesis by simp
qed

text \<open>
  A run that cannot go on has ended, or one of its workers has been rejected: then the
  callback of \<^verbatim>\<open>Promise.all\<close> never runs.
\<close>

lemma progress: "finished c \<or> (\<exists>a c'. step a c = Some c') \<or> list_ex (\<lambda>w. w = Rejected) (workers c)"
proof (cases "eventBuffer c")
  case (Cons e es)
  then have "step Yield c \<noteq> None" by simp
  then show ?thesis by blast
next
  case Nil
  show ?thesis
  proof (cases "allDone c")
    case True
    with Nil show ?thesis by (simp add: finished_def)
  next
    case nd: False
    show ?thesis
    proof (cases "list_all (\<lambda>w. w = Exited) (workers c)")
      case True
      with nd have "step (WorkersDone []) c \<noteq> None" by simp
      then show ?thesis by blast
    next
      case False
      then obtain i where i: "i < length (workers c)" "workers c ! i \<noteq> Exited"
        by (auto simp: list_all_iff in_set_conv_nth)
      show ?thesis
      proof (cases "workers c ! i = Rejected")
        case True
        with i(1) have "list_ex (\<lambda>w. w = Rejected) (workers c)"
          by (auto simp: list_ex_iff in_set_conv_nth)
        then show ?thesis by simp
      next
        case False
        from worker_enabled [OF i this] show ?thesis by simp
      qed
    qed
  qed
qed

lemma stuck_not_finished:
  assumes "inv_done c" and "list_ex (\<lambda>w. w = Rejected) (workers c)"
  shows "\<not> allDone c"
  using assms by (auto simp: inv_done_def list_ex_iff list_all_iff)

lemma exec_append:
  "exec (as @ bs) c = (case exec as c of None \<Rightarrow> None | Some c1 \<Rightarrow> exec bs c1)"
  by (induction as arbitrary: c) (auto split: option.splits)

text \<open>
  From a state in which no checkpoint is half-way, some steps lead to another such state:
  a worker that has to write its checkpoint writes and renames it at once.
\<close>

lemma calm_setWorker:
  "calm c \<Longrightarrow> calmWorker w \<Longrightarrow> calm (setWorker i w c)"
  by (simp add: calm_def list_all_update)

lemma calm_fields:
  "tmpFile c' = tmpFile c \<Longrightarrow> workers c' = workers c \<Longrightarrow> calm c' = calm c"
  by (simp add: calm_def)

lemma calm_progress:
  assumes "calm c" and "\<not> finished c"
  shows "\<exists>acts c'. acts \<noteq> [] \<and> exec acts c = Some c' \<and> calm c'"
proof (cases "eventBuffer c")
  case (Cons e es)
  then have "exec [Yield] c = Some (c\<lparr>eventBuffer := es, yielded := yielded c @ [e]\<rparr>)"
    by simp
  moreover have "calm (c\<lparr>eventBuffer := es, yielded := yielded c @ [e]\<rparr>)"
    using assms(1) by (simp add: calm_def)
  ultimately show ?thesis by blast
next
  case Nil
  with assms(2) have nd: "\<not> allDone c" by (simp add: finished_def)
  show ?thesis
  proof (cases "list_all (\<lambda>w. w = Exited) (workers c)")
    case True
    with nd have "exec [WorkersDone []] c
        = Some (pushEvent (AuditComplete (summaryOf c [])) (c\<lparr>allDone := True\<rparr>))"
      by simp
    moreover have "calm (pushEvent (AuditComplete (summaryOf c [])) (c\<lparr>allDone := True\<rparr>))"
      using assms(1) by (simp add: calm_def)
    ultimately show ?thesis by blast
  next
    case False
    then obtain i where i: "i < length (workers c)" "workers c ! i \<noteq> Exited"
      by (auto simp: list_all_iff in_set_conv_nth)
    from assms(1) i(1) have cw: "calmWorker (workers c ! i)"
      by (simp add: calm_def list_all_nth)
    show ?thesis
    proof (cases "workers c ! i")
      case (AwaitNewPage u)
      with i have "exec [NewPageResolved i] c = Some (setWorker i (AwaitAuditPage u) c)"
        by (simp add: workerAt_def)
      moreover have "calm (setWorker i (AwaitAuditPage u) c)"
        using assms(1) by (simp add: calm_setWorker)
      ultimately show ?thesis by blast
    next
      case (AwaitAuditPage u)
      let ?r = "auditPage u (Failed [] [])"
      let ?c1 = "pushEvent (terminalEvent u ?r) (c\<lparr>state := recordResult u ?r (state c)\<rparr>)"
      from AwaitAuditPage i
      have "exec [AuditPageResolved i (Failed [] [])] c
              = Some (setWorker i (AwaitSave u ?r AwaitMkdir) ?c1)"
        by (simp add: workerAt_def)
      moreover have "calm ?c1" using assms(1) by (simp add: calm_def)
      then have "calm (setWorker i (AwaitSave u ?r AwaitMkdir) ?c1)"
        by (simp add: calm_setWorker)
      ultimately show ?thesis by blast
    next
      case (AwaitSave u r stage)
      with cw have st: "stage = AwaitMkdir" by (cases stage) simp_all
      let ?c3 = "c\<lparr>workers := (workers c)[i := AwaitClose u], tmpFile := None,
                    savedStates := savedStates c @ [state c]\<rparr>"
      have 1: "step (MkdirResolved i) c
                 = Some (setWorker i (AwaitSave u r (AwaitWriteFile (state c))) c)"
        using AwaitSave st i by (simp add: workerAt_def)
      have 2: "step (WriteFileResolved i) (setWorker i (AwaitSave u r (AwaitWriteFile (state c))) c)
                 = Some (setWorker i (AwaitSave u r AwaitRename) (c\<lparr>tmpFile := Some (state c)\<rparr>))"
        using i by (simp add: workerAt_def setWorker_def)
      have 3: "step (RenameSettled i)
                 (setWorker i (AwaitSave u r AwaitRename) (c\<lparr>tmpFile := Some (state c)\<rparr>))
                 = Some ?c3"
        using i by (simp add: workerAt_def setWorker_def)
      have "exec [MkdirResolved i, WriteFileResolved i, RenameSettled i] c = Some ?c3"
        by (simp only: exec.simps 1 2 3 option.case)
      moreover have "calm ?c3" using assms(1) by (simp add: calm_def list_all_update)
      ultimately show ?thesis by blast
    next
      case (AwaitClose u)
      show ?thesis
      proof (cases "urlQueue c")
        case Nil
        with AwaitClose i have "exec [CloseResolved i] c = Some (setWorker i Exited c)"
          by (simp add: workerAt_def whileHead_def)
        moreover have "calm (setWorker i Exited c)"
          using assms(1) by (simp add: calm_setWorker)
        ultimately show ?thesis by blast
      next
        case (Cons v rest)
        let ?c1 = "pushEvent (PageStart v) (c\<lparr>urlQueue := rest\<rparr>)"
        from Cons AwaitClose i
        have "exec [CloseResolved i] c = Some (setWorker i (AwaitNewPage v) ?c1)"
          by (simp add: workerAt_def whileHead_def)
        moreover have "calm ?c1" using assms(1) by (simp add: calm_def)
        then have "calm (setWorker i (AwaitNewPage v) ?c1)" by (simp add: calm_setWorker)
        ultimately show ?thesis by blast
      qed
    next
      case (AwaitCloseRejected u)
      with cw show ?thesis by simp
    next
      case Exited
      with i show ?thesis by simp
    next
      case Rejected
      with cw show ?thesis by simp
    qed
  qed
qed

lemma reaches_finished:
  assumes "calm c"
  shows "\<exists>acts c'. exec acts c = Some c' \<and> finished c'"
  using assms
proof (induction "stepsLeft c" arbitrary: c rule: less_induct)
  case less
  show ?case
  proof (cases "finished c")
    case True
    then have "exec [] c = Some c \<and> finished c" by simp
    then show ?thesis by blast
  next
    case False
    from calm_progress [OF less.prems this] obtain as c1 where
      1: "as \<noteq> []" "exec as c = Some c1" "calm c1" by blast
    from exec_stepsLeft [OF 1(2)] 1(1) have "stepsLeft c1 < stepsLeft c"
      by (cases as) simp_all
    from less.hyps [OF this 1(3)] obtain acts c' where
      2: "exec acts c1 = Some c'" "finished c'" by blast
    from 1(2) 2 have "exec (as @ acts) c = Some c' \<and> finished c'"
      by (simp add: exec_append)
    then show ?thesis by blast
  qed
qed

lemma calm_startWorker: "calm c \<Longrightarrow> calm (startWorker c)"
  by (cases "urlQueue c")
     (simp_all add: calm_def startWorker_def whileHead_def pushEvent_def)

lemma calm_funpow: "calm c \<Longrightarrow> calm ((startWorker ^^ n) c)"
  by (induction n) (simp_all add: calm_startWorker)

lemma calm_startPool: "calm (startPool urls maxConcurrent sid now)"
  unfolding startPool_def by (rule calm_funpow) (simp add: calm_def)

lemma startPool_reaches_finished:
  "\<exists>acts c. exec acts (startPool urls maxConcurrent sid now) = Some c \<and> finished c"
  using reaches_finished [OF calm_startPool] .

subsection \<open>A single worker\<close>

lemma soloOk_fields: "tmpFile c' = tmpFile c \<Longrightarrow> soloOk c' w = soloOk c w"
  by (cases "(c, w)" rule: soloOk.cases) simp_all

lemma inv_solo_step:
  assumes "inv_solo c" and "step a c = Some c'"
  shows "inv_solo c'"
proof -
  from assms(1) obtain w where w: "workers c = [w]" "soloOk c w"
    by (auto simp: inv_solo_def)
  have upd: "inv_solo (setWorker i w' d)"
    if "i < length (workers c)" "workers d = workers c" "soloOk (setWorker i w' d) w'" for i w' d
    using that w(1) by (simp add: inv_solo_def)
  from assms(2) show ?thesis
  proof (cases rule: stepE)
    case (NewPage i u)
    show ?thesis unfolding NewPage(4) using NewPage(2) by (intro upd) simp_all
  next
    case (Audit i out u)
    show ?thesis unfolding Audit(4) using Audit(2) by (intro upd) simp_all
  next
    case (Mkdir i u r)
    show ?thesis unfolding Mkdir(4) using Mkdir(2) by (intro upd) simp_all
  next
    case (WriteFile i u r snap)
    show ?thesis unfolding WriteFile(4) using WriteFile(2) by (intro upd) simp_all
  next
    case (RenameOk i u r content)
    show ?thesis unfolding RenameOk(4,5) using RenameOk(2) by (intro upd) simp_all
  next
    case (RenameFail i u r)
    with w have False by simp
    then show ?thesis ..
  next
    case (CloseNext i u v rest)
    show ?thesis unfolding CloseNext(5) using CloseNext(2) by (intro upd) simp_all
  next
    case (CloseExit i u)
    show ?thesis unfolding CloseExit(5) using CloseExit(2) by (intro upd) simp_all
  next
    case (CloseRejected i u)
    with w have False by simp
    then show ?thesis ..
  next
    case (Done now)
    with w soloOk_fields [of c' c w] show ?thesis by (simp add: inv_solo_def)
  next
    case (Yield event rest)
    with w soloOk_fields [of c' c w] show ?thesis by (simp add: inv_solo_def)
  qed
qed

lemma inv_solo_exec: "inv_solo c \<Longrightarrow> exec acts c = Some c' \<Longrightarrow> inv_solo c'"
proof (induction acts arbitrary: c)
  case Nil
  then show ?case by simp
next
  case (Cons a acts)
  then show ?case by (auto split: option.splits dest: inv_solo_step)
qed

lemma inv_solo_startPool:
  assumes "createContexts maxConcurrent 0 = 1"
  shows "inv_solo (startPool urls maxConcurrent sid now)"
  using assms
  by (cases urls) (simp_all add: startPool_def startWorker_def whileHead_def inv_solo_def
      pushEvent_def)

lemma inv_solo_not_rejected: "inv_solo c \<Longrightarrow> \<not> list_ex (\<lambda>w. w = Rejected) (workers c)"
  by (auto simp: inv_solo_def)

subsection \<open>The number of workers\<close>

lemma concurrency_cases:
  obtains (Num) q where "concurrency maxConcurrent = Num q" "q \<le> 3"
  | (NaN) "concurrency maxConcurrent = NaN"
  | (NegInfinity) "concurrency maxConcurrent = NegInfinity"
proof (cases "case maxConcurrent of None \<Rightarrow> Num 2 | Some n \<Rightarrow> n")
  case (Num a)
  then have "concurrency maxConcurrent = Num (min a 3)" by (simp add: concurrency_def)
  then show ?thesis using that(1) [of "min a 3"] by simp
next
  case NaN
  then show ?thesis using that(2) by (simp add: concurrency_def)
next
  case PosInfinity
  then show ?thesis using that(1) [of 3] by (simp add: concurrency_def)
next
  case NegInfinity
  then show ?thesis using that(3) by (simp add: concurrency_def)
qed

lemma createContexts_Num:
  assumes "concurrency maxConcurrent = Num q"
  shows "createContexts maxConcurrent i = max i (nat \<lceil>q\<rceil>)"
  using assms
proof (induction maxConcurrent i rule: createContexts.induct)
  case (1 maxConcurrent i)
  show ?case
  proof (cases "of_nat i < q")
    case True
    then have "jsLessThan (Num (of_nat i)) (concurrency maxConcurrent)" using 1(2) by simp
    from 1(1) [OF this 1(2)] this
    have e: "createContexts maxConcurrent i = max (Suc i) (nat \<lceil>q\<rceil>)"
      by (subst createContexts.simps) simp
    from True have "of_int (int i) < q" by simp
    then have "int i < \<lceil>q\<rceil>" by (simp only: less_ceiling_iff)
    then show ?thesis unfolding e by simp
  next
    case False
    then have "\<not> jsLessThan (Num (of_nat i)) (concurrency maxConcurrent)" using 1(2) by simp
    then have e: "createContexts maxConcurrent i = i"
      by (subst createContexts.simps) simp
    from False have "q \<le> of_int (int i)" by simp
    then have "\<lceil>q\<rceil> \<le> int i" by (simp only: ceiling_le_iff)
    then show ?thesis unfolding e by simp
  qed
qed

lemma createContexts_closed:
  "createContexts maxConcurrent 0
     = (case concurrency maxConcurrent of Num q \<Rightarrow> nat \<lceil>q\<rceil> | _ \<Rightarrow> 0)"
proof (cases maxConcurrent rule: concurrency_cases)
  case (Num q)
  with createContexts_Num [OF Num(1), of 0] show ?thesis by simp
next
  case NaN
  then show ?thesis by (subst createContexts.simps) simp
next
  case NegInfinity
  then show ?thesis by (subst createContexts.simps) simp
qed

lemma createContexts_le: "createContexts maxConcurrent 0 \<le> 3"
proof (cases maxConcurrent rule: concurrency_cases)
  case (Num q)
  then have "\<lceil>q\<rceil> \<le> 3" by (simp add: ceiling_le_iff)
  then have "nat \<lceil>q\<rceil> \<le> 3" by linarith
  with Num(1) show ?thesis by (simp add: createContexts_closed)
qed (simp_all add: createContexts_closed)

lemma createContexts_pos:
  "0 < createContexts maxConcurrent 0 \<longleftrightarrow> jsLessThan (Num 0) (concurrency maxConcurrent)"
proof (cases maxConcurrent rule: concurrency_cases)
  case (Num q)
  have "0 < nat \<lceil>q\<rceil> \<longleftrightarrow> 0 < q" by (simp add: less_ceiling_iff)
  with Num show ?thesis by (simp add: createContexts_closed)
qed (simp_all add: createContexts_closed)

lemma jsLessThan_concurrency:
  "jsLessThan (Num 0) (concurrency maxConcurrent)
     \<longleftrightarrow> (case maxConcurrent of None \<Rightarrow> True | Some (Num q) \<Rightarrow> 0 < q
          | Some PosInfinity \<Rightarrow> True | Some _ \<Rightarrow> False)"
  by (simp add: concurrency_def split: option.splits jsNumber.splits)

lemma createContexts_nat:
  "createContexts (Some (Num (of_nat n))) 0 = min n 3"
proof -
  have c: "concurrency (Some (Num (of_nat n))) = Num (of_nat (min n 3))"
    by (simp add: concurrency_def min_def)
  show ?thesis by (simp add: createContexts_closed c)
qed

subsection \<open>The checkpoint race\<close>

text \<open>
  A rejected worker stays rejected, and a run with a rejected worker never pushes
  \<^verbatim>\<open>audit_complete\<close>: the generator is left waiting for an event that does not come.
\<close>

lemma rejected_step:
  assumes "step a c = Some c'" and "list_ex (\<lambda>w. w = Rejected) (workers c)"
  shows "list_ex (\<lambda>w. w = Rejected) (workers c')"
proof -
  from assms(2) have "Rejected \<in> set (workers c)" by (simp add: list_ex_iff)
  then obtain j where j: "j < length (workers c)" "workers c ! j = Rejected"
    unfolding in_set_conv_nth by (elim exE conjE)
  have upd: "list_ex (\<lambda>w. w = Rejected) ((workers c)[i := w])" if "workers c ! i \<noteq> Rejected" for i w
  proof -
    have "i \<noteq> j"
    proof
      assume "i = j"
      with that j(2) show False by simp
    qed
    with j have 1: "j < length ((workers c)[i := w])" and 2: "(workers c)[i := w] ! j = Rejected"
      by simp_all
    from nth_mem [OF 1] 2 have "Rejected \<in> set ((workers c)[i := w])" by simp
    then show ?thesis by (simp add: list_ex_iff)
  qed
  from assms(1) show ?thesis
  proof (cases rule: stepE)
    case (NewPage i u)
    then have "workers c ! i \<noteq> Rejected" "workers c' = (workers c)[i := AwaitAuditPage u]"
      by simp_all
    with upd [of i "AwaitAuditPage u"] show ?thesis by simp
  next
    case (Audit i out u)
    then have "workers c ! i \<noteq> Rejected" "workers c' = (workers c)[i := AwaitSave u (auditPage u out) AwaitMkdir]"
      by simp_all
    with upd [of i "AwaitSave u (auditPage u out) AwaitMkdir"] show ?thesis by simp
  next
    case (Mkdir i u r)
    then have "workers c ! i \<noteq> Rejected" "workers c' = (workers c)[i := AwaitSave u r (AwaitWriteFile (state c))]"
      by simp_all
    with upd [of i "AwaitSave u r (AwaitWriteFile (state c))"] show ?thesis by simp
  next
    case (WriteFile i u r snap)
    then have "workers c ! i \<noteq> Rejected" "workers c' = (workers c)[i := AwaitSave u r AwaitRename]"
      by simp_all
    with upd [of i "AwaitSave u r AwaitRename"] show ?thesis by simp
  next
    case (RenameOk i u r content)
    then have "workers c ! i \<noteq> Rejected" "workers c' = (workers c)[i := AwaitClose u]"
      by simp_all
    with upd [of i "AwaitClose u"] show ?thesis by simp
  next
    case (RenameFail i u r)
    then have "workers c ! i \<noteq> Rejected" "workers c' = (workers c)[i := AwaitCloseRejected u]"
      by simp_all
    with upd [of i "AwaitCloseRejected u"] show ?thesis by simp
  next
    case (CloseNext i u v rest)
    then have "workers c ! i \<noteq> Rejected" "workers c' = (workers c)[i := AwaitNewPage v]"
      by simp_all
    with upd [of i "AwaitNewPage v"] show ?thesis by simp
  next
    case (CloseExit i u)
    then have "workers c ! i \<noteq> Rejected" "workers c' = (workers c)[i := Exited]"
      by simp_all
    with upd [of i "Exited"] show ?thesis by simp
  next
    case (CloseRejected i u)
    then have "workers c ! i \<noteq> Rejected" "workers c' = (workers c)[i := Rejected]"
      by simp_all
    with upd [of i "Rejected"] show ?thesis by simp
  next
    case (Done now)
    with assms(2) show ?thesis by simp
  next
    case (Yield event rest)
    with assms(2) show ?thesis by simp
  qed
qed

lemma rejected_never_complete:
  assumes "poolInv urls c" and "list_ex (\<lambda>w. w = Rejected) (workers c)"
  shows "\<not> list_ex isAuditComplete (pushed c)" and "\<not> finished c"
proof -
  from assms have d: "inv_done c" by (simp add: poolInv_def)
  from stuck_not_finished [OF d assms(2)] have n: "\<not> allDone c" .
  with d show "\<not> list_ex isAuditComplete (pushed c)" by (simp add: inv_done_def)
  from n show "\<not> finished c" by (simp add: finished_def)
qed

text \<open>
  With the default concurrency and two pages: both workers write the shared temp file,
  the \<^verbatim>\<open>rename\<close> of the one installs the snapshot the other wrote, which lacks the second
  page, and the \<^verbatim>\<open>rename\<close> of the other is rejected. Both terminal events have been
  handed out, no step is left, and \<^verbatim>\<open>audit_complete\<close> has not been pushed.
\<close>

lemma checkpoint_race:
  "exec raceSchedule (startPool [''a'', ''b''] None ''s'' ''t0'')
     = Some \<lparr>inputUrls = [''a'', ''b''], urlQueue = [],
             state = \<lparr>sessionId = ''s'', ss_startedAt = ''t0'', ss_totalPages = 2,
                      completedPages = [''a'', ''b''], pendingPages = [],
                      results = [(''a'', auditPage ''a'' (Failed ''t1'' ''boom'')),
                                 (''b'', auditPage ''b'' (Failed ''t2'' ''late''))]\<rparr>,
             eventBuffer = [],
             yielded = [PageStart ''a'', PageStart ''b'', PageError ''a'' ''boom'',
                        PageError ''b'' ''late''],
             workers = [Rejected, Exited], allDone = False, tmpFile = None,
             savedStates =
               [\<lparr>sessionId = ''s'', ss_startedAt = ''t0'', ss_totalPages = 2,
                 completedPages = [''a''], pendingPages = [''b''],
                 results = [(''a'', auditPage ''a'' (Failed ''t1'' ''boom''))]\<rparr>]\<rparr>"
  by code_simp

lemma checkpoint_race_stuck:
  assumes "workers c = [Rejected, Exited]" and "eventBuffer c = []"
  shows "step a c = None"
proof (cases a)
  case (NewPageResolved i)
  with assms show ?thesis by (cases i) (auto simp: workerAt_def less_Suc_eq_0_disj)
next
  case (AuditPageResolved i out)
  with assms show ?thesis by (cases i) (auto simp: workerAt_def less_Suc_eq_0_disj)
next
  case (MkdirResolved i)
  with assms show ?thesis by (cases i) (auto simp: workerAt_def less_Suc_eq_0_disj)
next
  case (WriteFileResolved i)
  with assms show ?thesis by (cases i) (auto simp: workerAt_def less_Suc_eq_0_disj)
next
  case (RenameSettled i)
  with assms show ?thesis by (cases i) (auto simp: workerAt_def less_Suc_eq_0_disj)
next
  case (CloseResolved i)
  with assms show ?thesis by (cases i) (auto simp: workerAt_def less_Suc_eq_0_disj)
next
  case (WorkersDone now)
  with assms show ?thesis by simp
next
  case Yield
  with assms show ?thesis by simp
qed

text \<open>
  The key \<^verbatim>\<open>__proto__\<close>: the page is completed and its terminal event pushed, but the
  result map has no entry for it.
\<close>

lemma proto_result_not_stored:
  "map_option (\<lambda>c. (completedPages (state c), results (state c), eventBuffer c))
     (exec [NewPageResolved 0, AuditPageResolved 0 (Failed ''t1'' ''boom'')]
        (startPool [''__proto__''] None ''s'' ''t0''))
     = Some ([''__proto__''], [], [PageStart ''__proto__'', PageError ''__proto__'' ''boom''])"
  by code_simp

lemma distinct_mset_subseteq:
  assumes "mset xs \<subseteq># mset ys" and "distinct ys"
  shows "distinct xs"
proof -
  from assms(1) obtain Z where "mset ys = mset xs + Z"
    by (auto simp: mset_subset_eq_exists_conv)
  moreover obtain zs where "mset zs = Z" using ex_mset by blast
  ultimately have "mset ys = mset (xs @ zs)" by simp
  from mset_eq_imp_distinct_iff [OF this] assms(2) have "distinct (xs @ zs)" by simp
  then show ?thesis by simp
qed

text \<open>
  Claim C7, as the code has it. When the requested concurrency is absent or greater than
  0 (\<^verbatim>\<open>0 < concurrency\<close> holds, so that a worker is created): a complete run of the pool
  over the list of URLs exists; no run is longer than \<open>stepsLeft\<close> of the start; a run that
  cannot go on has ended, or one of its workers has been rejected by the \<^verbatim>\<open>rename\<close> of
  a checkpoint, which cannot happen when a single worker is created; and in a run that has
  ended every worker has returned, and the stream holds the page starts of the input URLs,
  in input order, one terminal page event for each input URL, and one
  \<^verbatim>\<open>audit_complete\<close>, which is its last element.
\<close>

theorem stream_complete:
  assumes "jsLessThan (Num 0) (concurrency maxConcurrent)"
  shows "(\<exists>acts c. exec acts (startPool urls maxConcurrent sid now) = Some c \<and> finished c)
    \<and> (\<forall>acts c. exec acts (startPool urls maxConcurrent sid now) = Some c \<longrightarrow>
          length acts \<le> stepsLeft (startPool urls maxConcurrent sid now)
          \<and> (finished c \<or> (\<exists>a c'. step a c = Some c')
               \<or> list_ex (\<lambda>w. w = Rejected) (workers c))
          \<and> (createContexts maxConcurrent 0 = 1 \<longrightarrow>
                \<not> list_ex (\<lambda>w. w = Rejected) (workers c)))
    \<and> (\<forall>acts c. exec acts (startPool urls maxConcurrent sid now) = Some c \<and> finished c \<longrightarrow>
          startUrls (yielded c) = urls
          \<and> mset (terminalUrls (yielded c)) = mset urls
          \<and> length (startUrls (yielded c)) = length urls
          \<and> length (terminalUrls (yielded c)) = length urls
          \<and> (\<exists>xs summary. yielded c = xs @ [AuditComplete summary]
                \<and> \<not> list_ex isAuditComplete xs)
          \<and> list_all (\<lambda>w. w = Exited) (workers c))"
proof (intro conjI allI impI)
  show "\<exists>acts c. exec acts (startPool urls maxConcurrent sid now) = Some c \<and> finished c"
    by (rule startPool_reaches_finished)
next
  fix acts c
  assume "exec acts (startPool urls maxConcurrent sid now) = Some c"
  from exec_stepsLeft [OF this]
  show "length acts \<le> stepsLeft (startPool urls maxConcurrent sid now)" by simp
  show "finished c \<or> (\<exists>a c'. step a c = Some c') \<or> list_ex (\<lambda>w. w = Rejected) (workers c)"
    by (rule progress)
next
  fix acts c
  assume e: "exec acts (startPool urls maxConcurrent sid now) = Some c"
    and "createContexts maxConcurrent 0 = 1"
  from inv_solo_startPool [OF this(2)] have "inv_solo (startPool urls maxConcurrent sid now)" .
  from inv_solo_exec [OF this e] show "\<not> list_ex (\<lambda>w. w = Rejected) (workers c)"
    by (rule inv_solo_not_rejected)
next
  fix acts c
  assume a: "exec acts (startPool urls maxConcurrent sid now) = Some c \<and> finished c"
  then have inv: "poolInv urls c"
    using poolInv_exec [OF poolInv_startPool] by blast
  have "length (workers c) = createContexts maxConcurrent 0"
    using a length_workers_exec length_workers_startPool by metis
  with assms have n: "0 < length (workers c)" by (simp add: createContexts_pos)
  from a have fin: "finished c" by simp
  note f = finished_stream [OF inv fin n]
  show "startUrls (yielded c) = urls" by (rule f(1))
  show "mset (terminalUrls (yielded c)) = mset urls" by (rule f(2))
  show "length (startUrls (yielded c)) = length urls" by (simp add: f(1))
  show "length (terminalUrls (yielded c)) = length urls" using f(2) by (metis size_mset)
  show "\<exists>xs summary. yielded c = xs @ [AuditComplete summary] \<and> \<not> list_ex isAuditComplete xs"
    using f(3) by blast
  from inv fin show "list_all (\<lambda>w. w = Exited) (workers c)"
    by (simp add: poolInv_def inv_done_def finished_def)
qed

theorem stream_complete_witness:
  "jsLessThan (Num 0) (concurrency (Some (Num 2)))
   \<and> (\<exists>c. exec schedule2 (startPool [''a'', ''b''] (Some (Num 2)) ''s'' ''t0'') = Some c
          \<and> finished c
          \<and> startUrls (yielded c) = [''a'', ''b'']
          \<and> mset (terminalUrls (yielded c)) = mset [''a'', ''b'']
          \<and> (\<exists>xs summary. yielded c = xs @ [AuditComplete summary]
                \<and> \<not> list_ex isAuditComplete xs))
   \<and> jsLessThan (Num 0) (concurrency (Some (Num 1)))
   \<and> createContexts (Some (Num 1)) 0 = 1
   \<and> (\<exists>c. exec schedule1 (startPool [''a''] (Some (Num 1)) ''s'' ''t0'') = Some c
          \<and> finished c
          \<and> \<not> list_ex (\<lambda>w. w = Rejected) (workers c))"
proof -
  have h2: "jsLessThan (Num 0) (concurrency (Some (Num 2)))" by (simp add: concurrency_def)
  have h1: "jsLessThan (Num 0) (concurrency (Some (Num 1)))" by (simp add: concurrency_def)
  have n1: "createContexts (Some (Num 1)) 0 = 1" by code_simp
  have "map_option finished (exec schedule2 (startPool [''a'', ''b''] (Some (Num 2)) ''s'' ''t0''))
          = Some True"
    by code_simp
  then obtain c2 where
    c2: "exec schedule2 (startPool [''a'', ''b''] (Some (Num 2)) ''s'' ''t0'') = Some c2"
      "finished c2"
    by auto
  have "map_option finished (exec schedule1 (startPool [''a''] (Some (Num 1)) ''s'' ''t0''))
          = Some True"
    by code_simp
  then obtain c1 where
    c1: "exec schedule1 (startPool [''a''] (Some (Num 1)) ''s'' ''t0'') = Some c1" "finished c1"
    by auto
  note t2 = stream_complete [OF h2, of "[''a'', ''b'']" "''s''" "''t0''"]
  note t1 = stream_complete [OF h1, of "[''a'']" "''s''" "''t0''"]
  from t2 [THEN conjunct2, THEN conjunct2, rule_format, of schedule2 c2] c2
  have s2: "startUrls (yielded c2) = [''a'', ''b'']"
    "mset (terminalUrls (yielded c2)) = mset [''a'', ''b'']"
    "\<exists>xs summary. yielded c2 = xs @ [AuditComplete summary] \<and> \<not> list_ex isAuditComplete xs"
    by simp_all
  from t1 [THEN conjunct2, THEN conjunct1, rule_format, of schedule1 c1] c1(1) n1
  have s1: "\<not> list_ex (\<lambda>w. w = Rejected) (workers c1)" by simp
  show ?thesis
    using h2 c2 s2 h1 n1 c1 s1
    by (intro conjI exI [of _ c2] exI [of _ c1])
qed

text \<open>
  The statement of claim C7 itself fails when the requested concurrency is 0: no worker is
  created, \<^verbatim>\<open>Promise.all([])\<close> resolves at once, and the stream of the one-page input is
  \<^verbatim>\<open>audit_complete\<close> alone, with the page still in the queue.
\<close>

theorem stream_zero_workers_counterexample:
  "exec [WorkersDone ''t1'', Yield] (startPool [''a''] (Some (Num 0)) ''s'' ''t0'')
     = Some \<lparr>inputUrls = [''a''], urlQueue = [''a''],
             state = \<lparr>sessionId = ''s'', ss_startedAt = ''t0'', ss_totalPages = 1,
                      completedPages = [], pendingPages = [''a''], results = []\<rparr>,
             eventBuffer = [],
             yielded = [AuditComplete \<lparr>totalPages = 1, completedCount = 0, failedPages = 0,
                                       startedAt = ''t0'', finishedAt = ''t1''\<rparr>],
             workers = [], allDone = True, tmpFile = None, savedStates = []\<rparr>"
  by code_simp

text \<open>
  Claim C8, as the code has it. The effective concurrency is \<^verbatim>\<open>Math.min\<close> of the requested
  concurrency (2 when absent) and the ceiling 3. The number of worker contexts created is
  the number of naturals below it: the effective concurrency rounded up when that is a
  positive number, and 0 when it is 0, negative or \<^verbatim>\<open>NaN\<close>. It is never above 3; it is 2
  when no concurrency is requested, the minimum of \<open>n\<close> and 3 when the natural number \<open>n\<close>
  is requested; and it is at least 1 exactly when the requested concurrency is absent or
  greater than 0. With three input URLs and a requested concurrency of 4, three workers
  are created, a complete run exists, a run that cannot go on has ended or has a worker
  rejected by the \<^verbatim>\<open>rename\<close> of a checkpoint, and every run that has ended shows three
  terminal page events and one \<^verbatim>\<open>audit_complete\<close>.
\<close>

theorem effective_concurrency:
  "concurrency maxConcurrent
     = mathMin (case maxConcurrent of None \<Rightarrow> Num 2 | Some n \<Rightarrow> n) (Num 3)
   \<and> length (workers (startPool urls maxConcurrent sid now)) = createContexts maxConcurrent 0
   \<and> createContexts maxConcurrent 0
       = (case concurrency maxConcurrent of Num q \<Rightarrow> nat \<lceil>q\<rceil> | _ \<Rightarrow> 0)
   \<and> createContexts maxConcurrent 0 \<le> 3
   \<and> (maxConcurrent = None \<longrightarrow> createContexts maxConcurrent 0 = 2)
   \<and> (\<forall>n. maxConcurrent = Some (Num (of_nat n)) \<longrightarrow>
         createContexts maxConcurrent 0 = min n 3)
   \<and> (1 \<le> createContexts maxConcurrent 0
        \<longleftrightarrow> (case maxConcurrent of None \<Rightarrow> True | Some (Num q) \<Rightarrow> 0 < q
             | Some PosInfinity \<Rightarrow> True | Some _ \<Rightarrow> False))
   \<and> (length urls = 3 \<longrightarrow>
         length (workers (startPool urls (Some (Num 4)) sid now)) = 3
         \<and> (\<exists>acts c. exec acts (startPool urls (Some (Num 4)) sid now) = Some c \<and> finished c)
         \<and> (\<forall>acts c. exec acts (startPool urls (Some (Num 4)) sid now) = Some c \<longrightarrow>
               (finished c \<or> (\<exists>a c'. step a c = Some c')
                  \<or> list_ex (\<lambda>w. w = Rejected) (workers c))
               \<and> (finished c \<longrightarrow>
                     length (terminalUrls (yielded c)) = 3
                     \<and> length (filter isAuditComplete (yielded c)) = 1)))"
proof (intro conjI impI allI)
  show "concurrency maxConcurrent
          = mathMin (case maxConcurrent of None \<Rightarrow> Num 2 | Some n \<Rightarrow> n) (Num 3)"
    by (simp add: concurrency_def)
  show "length (workers (startPool urls maxConcurrent sid now)) = createContexts maxConcurrent 0"
    by (rule length_workers_startPool)
  show "createContexts maxConcurrent 0
          = (case concurrency maxConcurrent of Num q \<Rightarrow> nat \<lceil>q\<rceil> | _ \<Rightarrow> 0)"
    by (rule createContexts_closed)
  show "createContexts maxConcurrent 0 \<le> 3" by (rule createContexts_le)
next
  assume "maxConcurrent = None"
  then show "createContexts maxConcurrent 0 = 2"
    by (simp add: createContexts_closed concurrency_def)
next
  fix n
  assume "maxConcurrent = Some (Num (of_nat n))"
  then show "createContexts maxConcurrent 0 = min n 3" by (simp add: createContexts_nat)
next
  have "1 \<le> createContexts maxConcurrent 0 \<longleftrightarrow> 0 < createContexts maxConcurrent 0" by auto
  then show "1 \<le> createContexts maxConcurrent 0
        \<longleftrightarrow> (case maxConcurrent of None \<Rightarrow> True | Some (Num q) \<Rightarrow> 0 < q
             | Some PosInfinity \<Rightarrow> True | Some _ \<Rightarrow> False)"
    by (simp only: createContexts_pos jsLessThan_concurrency)
next
  have "createContexts (Some (Num 4)) 0 = 3"
    using createContexts_nat [of 4] by simp
  then show "length (workers (startPool urls (Some (Num 4)) sid now)) = 3"
    by (simp add: length_workers_startPool)
  show "\<exists>acts c. exec acts (startPool urls (Some (Num 4)) sid now) = Some c \<and> finished c"
    by (rule startPool_reaches_finished)
next
  fix acts c
  show "finished c \<or> (\<exists>a c'. step a c = Some c') \<or> list_ex (\<lambda>w. w = Rejected) (workers c)"
    by (rule progress)
next
  fix acts c
  assume l: "length urls = 3"
    and e: "exec acts (startPool urls (Some (Num 4)) sid now) = Some c"
    and fin: "finished c"
  have inv: "poolInv urls c"
    using poolInv_exec [OF poolInv_startPool e] .
  have "createContexts (Some (Num 4)) 0 = 3"
    using createContexts_nat [of 4] by simp
  then have "length (workers c) = 3"
    using length_workers_exec [OF e] by (simp add: length_workers_startPool)
  then have n: "0 < length (workers c)" by simp
  note f = finished_stream [OF inv fin n]
  show "length (terminalUrls (yielded c)) = 3" using f(2) l by (metis size_mset)
  from f(3) obtain xs t where "yielded c = xs @ [AuditComplete (summaryOf c t)]"
    and "\<not> list_ex isAuditComplete xs" by blast
  then show "length (filter isAuditComplete (yielded c)) = 1"
    by (simp add: list_ex_iff filter_empty_conv [THEN iffD2])
qed

theorem effective_concurrency_witness:
  "length [''a'', ''b'', ''c''] = 3
   \<and> Some (Num 4) = Some (Num (of_nat 4))
   \<and> concurrency (Some (Num 4)) = Num 3
   \<and> createContexts (Some (Num 4)) 0 = min 4 3
   \<and> length (workers (startPool [''a'', ''b'', ''c''] (Some (Num 4)) ''s'' ''t0'')) = 3
   \<and> (\<exists>c. exec schedule3 (startPool [''a'', ''b'', ''c''] (Some (Num 4)) ''s'' ''t0'') = Some c
          \<and> finished c
          \<and> length (terminalUrls (yielded c)) = 3
          \<and> length (filter isAuditComplete (yielded c)) = 1)
   \<and> createContexts None 0 = 2"
proof -
  have "map_option finished (exec schedule3 (startPool [''a'', ''b'', ''c''] (Some (Num 4)) ''s'' ''t0''))
          = Some True"
    by code_simp
  then obtain c where
    c: "exec schedule3 (startPool [''a'', ''b'', ''c''] (Some (Num 4)) ''s'' ''t0'') = Some c"
      "finished c"
    by auto
  have l: "length [''a'', ''b'', ''c''] = 3" by simp
  have k: "Some (Num 4) = Some (Num (of_nat 4))" by simp
  note e = effective_concurrency [of "Some (Num 4)" "[''a'', ''b'', ''c'']" "''s''" "''t0''"]
  note d = effective_concurrency [of None "[''a'', ''b'', ''c'']" "''s''" "''t0''"]
  note c2 = conjunct2
  from e [THEN conjunct1] have 1: "concurrency (Some (Num 4)) = Num 3" by simp
  from e [THEN c2, THEN c2, THEN c2, THEN c2, THEN c2, THEN conjunct1, rule_format, OF k]
  have 2: "createContexts (Some (Num 4)) 0 = min 4 3" .
  note x = e [THEN c2, THEN c2, THEN c2, THEN c2, THEN c2, THEN c2, THEN c2, THEN mp, OF l]
  from x [THEN conjunct1]
  have 3: "length (workers (startPool [''a'', ''b'', ''c''] (Some (Num 4)) ''s'' ''t0'')) = 3" .
  from x [THEN c2, THEN c2, rule_format, OF c(1), THEN c2, THEN mp, OF c(2)]
  have 5: "length (terminalUrls (yielded c)) = 3"
    "length (filter isAuditComplete (yielded c)) = 1"
    by simp_all
  from d [THEN c2, THEN c2, THEN c2, THEN c2, THEN conjunct1, THEN mp, OF refl]
  have 6: "createContexts None 0 = 2" .
  show ?thesis
    using l k 1 2 3 c 5 6 by (intro conjI exI [of _ c])
qed

text \<open>
  The statement of claim C8 itself fails for a requested concurrency of 0: the effective
  concurrency is 0, below 1, and no worker is created. It fails also for a requested
  concurrency of 2.5: three contexts are created, which is not the minimum of 2.5 and 3.
\<close>

theorem effective_concurrency_counterexample:
  "concurrency (Some (Num 0)) = Num 0
   \<and> workers (startPool [''a''] (Some (Num 0)) ''s'' ''t0'') = []
   \<and> concurrency (Some (Num (5 / 2))) = Num (5 / 2)
   \<and> length (workers (startPool [''a''] (Some (Num (5 / 2))) ''s'' ''t0'')) = 3"
  by code_simp




text \<open>
  Claim C10, as the code has it. When the input list holds no URL twice, in every state a
  run can reach the completed and the pending pages together hold each input URL exactly
  once, and the result map has an entry for every completed page other than
  \<^verbatim>\<open>__proto__\<close>, and for nothing else. (States are taken at the awaits; inside a
  synchronous block nothing else runs.)
\<close>

theorem session_partition:
  assumes "distinct urls"
    and "exec acts (startPool urls maxConcurrent sid now) = Some c"
  shows "distinct (completedPages (state c) @ pendingPages (state c))
       \<and> mset (completedPages (state c) @ pendingPages (state c)) = mset urls
       \<and> dom (map_of (results (state c))) = set (completedPages (state c)) - {''__proto__''}"
proof -
  have inv: "poolInv urls c"
    using poolInv_exec [OF poolInv_startPool assms(2)] .
  let ?done = "completedPages (state c)"
  let ?pend = "pendingPages (state c)"
  have p: "?pend = filter (\<lambda>u. u \<notin> set ?done) urls"
    using inv by (simp add: poolInv_def inv_session_def)
  have e1: "mset ?done + mset (concat (map inFlight (workers c))) = mset (startUrls (pushed c))"
    and e2: "startUrls (pushed c) @ urlQueue c = urls"
    using inv by (simp_all add: poolInv_def inv_events_def)
  have "mset ?done \<subseteq># mset (startUrls (pushed c))"
    unfolding e1 [symmetric] by simp
  moreover have "mset (startUrls (pushed c)) \<subseteq># mset urls"
    unfolding e2 [symmetric] by simp
  ultimately have sub: "mset ?done \<subseteq># mset urls" by (rule subset_mset.order_trans)
  then have d: "distinct ?done"
    using assms(1) by (rule distinct_mset_subseteq)
  from sub have s: "set ?done \<subseteq> set urls" using set_mset_mono by fastforce
  have 1: "distinct (?done @ ?pend)"
    using d assms(1) by (auto simp: p)
  have "set (?done @ ?pend) = set urls" using s by (auto simp: p)
  from set_eq_iff_mset_eq_distinct [OF 1 assms(1), THEN iffD1, OF this]
  have 2: "mset (?done @ ?pend) = mset urls" .
  have 3: "dom (map_of (results (state c))) = set ?done - {''__proto__''}"
    using inv by (simp add: poolInv_def inv_session_def dom_map_of_conv_image_fst)
  from 1 2 3 show ?thesis by (intro conjI)
qed

theorem session_partition_witness:
  "distinct [''a'', ''b'']
   \<and> (\<exists>c. exec midSchedule (startPool [''a'', ''b''] (Some (Num 2)) ''s'' ''t0'') = Some c
          \<and> completedPages (state c) = [''b'']
          \<and> distinct (completedPages (state c) @ pendingPages (state c))
          \<and> mset (completedPages (state c) @ pendingPages (state c)) = mset [''a'', ''b'']
          \<and> dom (map_of (results (state c))) = set (completedPages (state c)) - {''__proto__''})"
proof -
  have d: "distinct [''a'', ''b'']" by simp
  have "map_option (\<lambda>c. completedPages (state c))
          (exec midSchedule (startPool [''a'', ''b''] (Some (Num 2)) ''s'' ''t0'')) = Some [''b'']"
    by code_simp
  then obtain c where
    c: "exec midSchedule (startPool [''a'', ''b''] (Some (Num 2)) ''s'' ''t0'') = Some c"
    and e: "completedPages (state c) = [''b'']"
    by auto
  from session_partition [OF d c] d c e show ?thesis
    by (intro conjI exI [of _ c]) simp_all
qed

text \<open>
  The statement of claim C10 itself fails on an input that holds a URL twice: the pending
  pages of the initial session hold it twice.
\<close>

theorem session_duplicates_counterexample:
  "pendingPages (state (startPool [''a'', ''a''] (Some (Num 1)) ''s'' ''t0'')) = [''a'', ''a'']
   \<and> completedPages (state (startPool [''a'', ''a''] (Some (Num 1)) ''s'' ''t0'')) = []"
  by code_simp

end
